theory Spec2Isabelle
  imports Main "HOL-Library.Word" "HOL-Library.AList"
begin

section \<open>Go values: strings, runes, machine integers\<close>

text \<open>
  A Go string is a sequence of bytes: \<^typ>\<open>string\<close>, whose \<^const>\<open>length\<close> is
  Go's \<open>len\<close>. A \<open>rune\<close> is an \<open>int32\<close>, an \<open>int\<close> has 64 bits. The statement
  \<open>for _, char := range str\<close> walks the UTF-8 decoding of the bytes: a byte sequence that
  is no valid encoding yields U+FFFD (65533) and advances by one byte. \<open>decodeRune\<close> is the
  first rune of a non-empty byte sequence together with its width.
\<close>

type_synonym rune = "32 word"
type_synonym goint = "64 word"

definition cont :: "nat \<Rightarrow> bool" where
  "cont b = (128 \<le> b \<and> b < 192)"

definition decode2 :: "nat \<Rightarrow> nat list \<Rightarrow> nat \<times> nat" where
  "decode2 b0 bs =
     (case bs of
        b1 # _ \<Rightarrow> if cont b1 then ((b0 mod 32) * 64 + b1 mod 64, 2) else (65533, 1)
      | _ \<Rightarrow> (65533, 1))"

definition decode3 :: "nat \<Rightarrow> nat list \<Rightarrow> nat \<times> nat" where
  "decode3 b0 bs =
     (case bs of
        b1 # b2 # _ \<Rightarrow>
          if (if b0 = 224 then 160 else 128) \<le> b1 \<and> b1 \<le> (if b0 = 237 then 159 else 191)
             \<and> cont b2
          then (((b0 mod 16) * 64 + b1 mod 64) * 64 + b2 mod 64, 3)
          else (65533, 1)
      | _ \<Rightarrow> (65533, 1))"

definition decode4 :: "nat \<Rightarrow> nat list \<Rightarrow> nat \<times> nat" where
  "decode4 b0 bs =
     (case bs of
        b1 # b2 # b3 # _ \<Rightarrow>
          if (if b0 = 240 then 144 else 128) \<le> b1 \<and> b1 \<le> (if b0 = 244 then 143 else 191)
             \<and> cont b2 \<and> cont b3
          then ((((b0 mod 8) * 64 + b1 mod 64) * 64 + b2 mod 64) * 64 + b3 mod 64, 4)
          else (65533, 1)
      | _ \<Rightarrow> (65533, 1))"

definition decodeRune :: "nat \<Rightarrow> nat list \<Rightarrow> nat \<times> nat" where
  "decodeRune b0 bs =
     (if b0 < 128 then (b0, 1)
      else if 194 \<le> b0 \<and> b0 < 224 then decode2 b0 bs
      else if 224 \<le> b0 \<and> b0 < 240 then decode3 b0 bs
      else if 240 \<le> b0 \<and> b0 < 245 then decode4 b0 bs
      else (65533, 1))"

function decodeBytes :: "nat list \<Rightarrow> (rune \<times> goint) list" where
  "decodeBytes [] = []"
| "decodeBytes (b0 # bs) =
     (case decodeRune b0 bs of
        (r, w) \<Rightarrow> (of_nat r, of_nat w) # decodeBytes (drop (w - 1) bs))"
  by pat_completeness auto
termination
  by (relation "measure length") auto

definition decodeString :: "string \<Rightarrow> (rune \<times> goint) list" where
  "decodeString str = decodeBytes (map of_char str)"

text \<open>The runes that \<open>range str\<close> yields.\<close>

definition runes :: "string \<Rightarrow> rune list" where
  "runes str = map fst (decodeString str)"

section \<open>The store\<close>

text \<open>
  \<open>SearchTrie\<close> values live in a store and are named by their address; a \<open>*SearchTrie\<close>
  is an address, a nil one (only \<open>lps\<close> is ever nil) is \<open>None\<close>. Go maps are
  references: copying a struct copies the reference, not the map. So the three map fields
  hold references, and the maps themselves live in three stores of their own, one per map
  type. \<open>map[string]bool\<close> only ever holds \<open>true\<close>: it is the list of its keys.
  A map is an association list in the order the keys were first stored.
  The package variable \<open>id\<close> is part of the store.

  Addresses and references are indices; a fresh one is the length of its store. Every
  address the code below dereferences was put in the store by the code itself.
  The identifiers are unbounded integers here: a wrap-around of \<open>id\<close> would take
  \<open>2^63\<close> allocations.
\<close>

type_synonym addr = nat
type_synonym mref = nat

record SearchTrie =
  id_st :: int
  root :: addr
  char :: rune
  isWord :: bool
  children :: mref
  lps :: "addr option"
  ilps :: mref
  ot :: mref

record heap =
  id_var :: int
  structs :: "SearchTrie list"
  runeMaps :: "(rune \<times> addr) list list"
  intMaps :: "(int \<times> addr) list list"
  strSets :: "string list list"

text \<open>The state of the package before any call: \<open>var id int = -1\<close>.\<close>

definition initHeap :: heap where
  "initHeap = \<lparr>id_var = - 1, structs = [], runeMaps = [], intMaps = [], strSets = []\<rparr>"

definition childrenOf :: "heap \<Rightarrow> addr \<Rightarrow> (rune \<times> addr) list" where
  "childrenOf h s = runeMaps h ! children (structs h ! s)"

definition ilpsOf :: "heap \<Rightarrow> addr \<Rightarrow> (int \<times> addr) list" where
  "ilpsOf h s = intMaps h ! ilps (structs h ! s)"

definition otOf :: "heap \<Rightarrow> addr \<Rightarrow> string list" where
  "otOf h s = strSets h ! ot (structs h ! s)"

section \<open>Reading the trie\<close>

definition isRoot :: "heap \<Rightarrow> addr \<Rightarrow> bool" where
  "isRoot h s = (s = root (structs h ! s))"

definition failureFn :: "heap \<Rightarrow> addr \<Rightarrow> addr" where
  "failureFn h s =
     (case lps (structs h ! s) of None \<Rightarrow> root (structs h ! s) | Some p \<Rightarrow> p)"

definition getChild :: "heap \<Rightarrow> addr \<Rightarrow> rune \<Rightarrow> addr" where
  "getChild h s c =
     (case map_of (childrenOf h s) c of
        Some child \<Rightarrow> child
      | None \<Rightarrow> root (structs h ! s))"

section \<open>Search\<close>

text \<open>
  A \<open>RuneReader\<close> is the list of the results its \<open>ReadRune\<close> calls will give, one per
  call; once the list is used up \<open>ReadRune\<close> gives \<open>io.EOF\<close>, which is an error like any
  other. The channel is the list of what was sent, grouped by the read that caused it:
  one inner list per rune read, in the order of the \<open>ot\<close> list (Go does not fix the
  order inside one group). The loop also gives back what is left of the reader: the
  results of the calls it did not make. A search whose inner loop never ends is \<open>None\<close>.
\<close>

datatype readResult = Rune rune goint | ReadError string

record Match =
  Term :: string
  Location :: "goint \<times> goint"

text \<open>The loop \<open>for !n.isRoot() && n.children[char] == nil { n = n.failureFn() }\<close>.\<close>

partial_function (option) fallBack :: "heap \<Rightarrow> addr \<Rightarrow> rune \<Rightarrow> addr option" where
  "fallBack h n c =
     (if \<not> isRoot h n \<and> map_of (childrenOf h n) c = None
      then fallBack h (failureFn h n) c
      else Some n)"

declare fallBack.simps [code]

definition emit :: "heap \<Rightarrow> addr \<Rightarrow> goint \<Rightarrow> Match list" where
  "emit h n index =
     map (\<lambda>t. \<lparr>Term = t, Location = (index - of_nat (length t), index)\<rparr>) (otOf h n)"

fun searchLoop ::
    "heap \<Rightarrow> addr \<Rightarrow> goint \<Rightarrow> readResult list \<Rightarrow> (Match list list \<times> readResult list) option" where
  "searchLoop h n index [] = Some ([], [])"
| "searchLoop h n index (ReadError e # r) = Some ([], r)"
| "searchLoop h n index (Rune c nbytes # r) =
     (case fallBack h n c of
        None \<Rightarrow> None
      | Some m \<Rightarrow>
          map_option (\<lambda>(sent, left). (emit h (getChild h m c) (index + nbytes) # sent, left))
            (searchLoop h (getChild h m c) (index + nbytes) r))"

text \<open>
  \<open>Search\<close> has a value receiver: \<open>s\<close> is a copy of the caller's struct, at an address
  of its own, and \<open>n := &s\<close> starts there. The result is the store after the call,
  what was sent on the channel before it was closed, and what is left of the reader.
\<close>

definition Search ::
    "heap \<Rightarrow> SearchTrie \<Rightarrow> readResult list \<Rightarrow> (heap \<times> Match list list \<times> readResult list) option" where
  "Search h s r =
     map_option (Pair (h\<lparr>structs := structs h @ [s]\<rparr>))
       (searchLoop (h\<lparr>structs := structs h @ [s]\<rparr>) (length (structs h)) 0 r)"

text \<open>\<open>strings.NewReader(text)\<close> as a \<open>RuneReader\<close>.\<close>

definition stringsReader :: "string \<Rightarrow> readResult list" where
  "stringsReader text = map (\<lambda>(r, w). Rune r w) (decodeString text)"

section \<open>Insertion\<close>

definition setLps :: "heap \<Rightarrow> addr \<Rightarrow> addr option \<Rightarrow> heap" where
  "setLps h s p = h\<lparr>structs := (structs h)[s := (structs h ! s)\<lparr>lps := p\<rparr>]\<rparr>"

definition setIsWord :: "heap \<Rightarrow> addr \<Rightarrow> bool \<Rightarrow> heap" where
  "setIsWord h s b = h\<lparr>structs := (structs h)[s := (structs h ! s)\<lparr>isWord := b\<rparr>]\<rparr>"

definition putChild :: "heap \<Rightarrow> addr \<Rightarrow> rune \<Rightarrow> addr \<Rightarrow> heap" where
  "putChild h s c child =
     h\<lparr>runeMaps := (runeMaps h)[children (structs h ! s) := AList.update c child (childrenOf h s)]\<rparr>"

definition putIlps :: "heap \<Rightarrow> addr \<Rightarrow> int \<Rightarrow> addr \<Rightarrow> heap" where
  "putIlps h s k x =
     h\<lparr>intMaps := (intMaps h)[ilps (structs h ! s) := AList.update k x (ilpsOf h s)]\<rparr>"

definition deleteIlps :: "heap \<Rightarrow> addr \<Rightarrow> int \<Rightarrow> heap" where
  "deleteIlps h s k =
     h\<lparr>intMaps := (intMaps h)[ilps (structs h ! s) := AList.delete k (ilpsOf h s)]\<rparr>"

definition putOt :: "heap \<Rightarrow> addr \<Rightarrow> string \<Rightarrow> heap" where
  "putOt h s str =
     h\<lparr>strSets := (strSets h)[ot (structs h ! s) :=
          (if str \<in> set (otOf h s) then otOf h s else otOf h s @ [str])]\<rparr>"

text \<open>
  \<open>enterOutput\<close> calls itself inside a loop over \<open>s.ilps\<close>. \<open>enterOutputs h xs str\<close> is
  that loop over the nodes \<open>xs\<close>: each gets \<open>str\<close> in its \<open>ot\<close> and then its own
  \<open>ilps\<close> is walked. The call never changes an \<open>ilps\<close> map. A recursion that never
  returns (Go ends it with a stack overflow, which stops the program) is \<open>None\<close>.
\<close>

partial_function (option) enterOutputs :: "heap \<Rightarrow> addr list \<Rightarrow> string \<Rightarrow> heap option" where
  "enterOutputs h xs str =
     (case xs of
        [] \<Rightarrow> Some h
      | s # rest \<Rightarrow>
          Option.bind (enterOutputs (putOt h s str) (map snd (ilpsOf h s)) str)
            (\<lambda>h'. enterOutputs h' rest str))"

declare enterOutputs.simps [code]

definition enterOutput :: "heap \<Rightarrow> addr \<Rightarrow> string \<Rightarrow> heap option" where
  "enterOutput h s str = enterOutputs h [s] str"

text \<open>
  The loop of \<open>completeFailureFn\<close>, from \<open>m\<close>: it gives \<open>mp\<close>.
\<close>

partial_function (option) failureTarget :: "heap \<Rightarrow> addr \<Rightarrow> rune \<Rightarrow> addr option" where
  "failureTarget h m c =
     (if isRoot h (failureFn h m) \<or> \<not> isRoot h (getChild h (failureFn h m) c)
      then Some (getChild h (failureFn h m) c)
      else failureTarget h (failureFn h m) c)"

declare failureTarget.simps [code]

definition completeFailureFn :: "heap \<Rightarrow> addr \<Rightarrow> rune \<Rightarrow> heap option" where
  "completeFailureFn h s c =
     (if isRoot h s then Some h
      else
        case failureTarget h s c of
          None \<Rightarrow> None
        | Some mp \<Rightarrow>
            Some (fold (\<lambda>k h'. putOt h' (getChild h s c) k) (otOf h mp)
                    (setLps h (getChild h s c) (Some mp))))"

text \<open>
  The loop of \<open>completeInverseFn\<close> over the map \<open>m = y.ilps\<close>, with the recursive call
  in its \<open>else\<close> branch. The loop deletes from \<open>ilps\<close> maps and stores into \<open>np.ilps\<close>
  while it runs, and either may be the map it ranges over. Go produces no entry that was
  deleted before the loop reached it, and may or may not produce one stored during the
  loop; here the loop walks the keys the map had when the loop began (\<open>ks\<close>), skips a
  key that is gone, and takes the value the key has when it is reached.
\<close>

partial_function (option) completeInverseLoop ::
    "heap \<Rightarrow> mref \<Rightarrow> int list \<Rightarrow> addr \<Rightarrow> rune \<Rightarrow> heap option" where
  "completeInverseLoop h m ks np c =
     (case ks of
        [] \<Rightarrow> Some h
      | k # rest \<Rightarrow>
          (case map_of (intMaps h ! m) k of
             None \<Rightarrow> completeInverseLoop h m rest np c
           | Some x \<Rightarrow>
               (case map_of (childrenOf h x) c of
                  Some xp \<Rightarrow>
                    completeInverseLoop
                      (putIlps (setLps (deleteIlps h (failureFn h xp) (id_st (structs h ! xp)))
                                  xp (Some np))
                         np (id_st (structs h ! xp)) xp)
                      m rest np c
                | None \<Rightarrow>
                    Option.bind
                      (completeInverseLoop h (ilps (structs h ! x)) (map fst (ilpsOf h x)) np c)
                      (\<lambda>h'. completeInverseLoop h' m rest np c))))"

declare completeInverseLoop.simps [code]

definition completeInverseFn :: "heap \<Rightarrow> addr \<Rightarrow> addr \<Rightarrow> rune \<Rightarrow> heap option" where
  "completeInverseFn h s np c =
     completeInverseLoop h (ilps (structs h ! s)) (map fst (ilpsOf h s)) np c"

definition newNode :: "heap \<Rightarrow> addr \<Rightarrow> rune \<Rightarrow> heap" where
  "newNode h r c =
     h\<lparr>id_var := id_var h + 1,
       structs := structs h @
         [\<lparr>id_st = id_var h + 1, root = r, char = c, isWord = False,
           children = length (runeMaps h), lps = None,
           ilps = length (intMaps h), ot = length (strSets h)\<rparr>],
       runeMaps := runeMaps h @ [[]],
       intMaps := intMaps h @ [[]],
       strSets := strSets h @ [[]]\<rparr>"

definition linkInverse :: "heap \<Rightarrow> addr \<Rightarrow> heap" where
  "linkInverse h child =
     (case lps (structs h ! child) of
        None \<Rightarrow> h
      | Some p \<Rightarrow> putIlps h p (id_st (structs h ! child)) child)"

definition enterChild :: "heap \<Rightarrow> addr \<Rightarrow> rune \<Rightarrow> (heap \<times> addr) option" where
  "enterChild h s c =
     (let child = length (structs h);
          h1 = putChild (newNode h (root (structs h ! s)) c) s c child
      in Option.bind (completeFailureFn h1 s c) (\<lambda>h2.
         Option.bind (completeInverseFn (linkInverse h2 child) s child c) (\<lambda>h3.
         Some (h3, child))))"

fun enterPath :: "heap \<Rightarrow> addr \<Rightarrow> rune list \<Rightarrow> (heap \<times> addr) option" where
  "enterPath h current [] = Some (h, current)"
| "enterPath h current (c # cs) =
     (if isRoot h (getChild h current c)
      then Option.bind (enterChild h current c) (\<lambda>(h', next). enterPath h' next cs)
      else enterPath h (getChild h current c) cs)"

definition enterInTrie :: "heap \<Rightarrow> addr \<Rightarrow> string \<Rightarrow> heap option" where
  "enterInTrie h s str =
     Option.bind (enterPath h s (runes str)) (\<lambda>(h', current).
       enterOutput (setIsWord h' current True) current str)"

fun buildTrie :: "heap \<Rightarrow> addr \<Rightarrow> string list \<Rightarrow> heap option" where
  "buildTrie h s [] = Some h"
| "buildTrie h s (str # strs) = Option.bind (enterInTrie h s str) (\<lambda>h'. buildTrie h' s strs)"

text \<open>
  \<open>buildFailureFn\<close>: the inner loop over one node's children, and the walk along the
  list \<open>nodes\<close>, which grows at its end while it is walked.
\<close>

fun completeChildren :: "heap \<Rightarrow> addr \<Rightarrow> rune list \<Rightarrow> heap option" where
  "completeChildren h node [] = Some h"
| "completeChildren h node (c # cs) =
     Option.bind (completeFailureFn h node c) (\<lambda>h'. completeChildren h' node cs)"

partial_function (option) buildFailureLoop :: "heap \<Rightarrow> addr list \<Rightarrow> heap option" where
  "buildFailureLoop h nodes =
     (case nodes of
        [] \<Rightarrow> Some h
      | node # rest \<Rightarrow>
          Option.bind (completeChildren h node (map fst (childrenOf h node)))
            (\<lambda>h'. buildFailureLoop h' (rest @ map snd (childrenOf h node))))"

declare buildFailureLoop.simps [code]

definition buildFailureFn :: "heap \<Rightarrow> addr \<Rightarrow> heap option" where
  "buildFailureFn h s = buildFailureLoop h (map snd (childrenOf h s))"

text \<open>\<open>New\<close> gives the store after the call and the address it returns.\<close>

definition New :: "heap \<Rightarrow> string list \<Rightarrow> (heap \<times> addr) option" where
  "New h searchStrings =
     (let s = length (structs h)
      in Option.bind (buildTrie (newNode h s 0) s searchStrings) (\<lambda>h1.
         Option.bind (buildFailureFn h1 s) (\<lambda>h2.
         Some (h2, s))))"

text \<open>
  \<open>AddSearchTerm\<close> has a value receiver too: it works on a copy \<open>s\<close> of the caller's
  struct, placed at a fresh address, and calls \<open>enterInTrie\<close> on \<open>&s\<close>.
\<close>

definition AddSearchTerm :: "heap \<Rightarrow> SearchTrie \<Rightarrow> string \<Rightarrow> heap option" where
  "AddSearchTerm h s searchTerm =
     enterInTrie (h\<lparr>structs := structs h @ [s]\<rparr>) (length (structs h)) searchTerm"

section \<open>The calls of the test\<close>

text \<open>
  \<open>TestNew\<close> keeps the value \<open>*New(searches)\<close> in a \<open>Searcher\<close>, calls
  \<open>AddSearchTerm\<close> on it and ranges over \<open>Search(strings.NewReader(text))\<close>.
  \<open>addSearchTerms\<close> is a row of \<open>AddSearchTerm\<close> calls on one value, \<open>sent\<close> what a
  search has sent, and \<open>testRun\<close> the three steps from the initial state of the
  package, giving what the test receives from the channel.
\<close>

fun addSearchTerms :: "heap \<Rightarrow> SearchTrie \<Rightarrow> string list \<Rightarrow> heap option" where
  "addSearchTerms h s [] = Some h"
| "addSearchTerms h s (t # ts) =
     Option.bind (AddSearchTerm h s t) (\<lambda>h'. addSearchTerms h' s ts)"

definition sent :: "(heap \<times> Match list list \<times> readResult list) option \<Rightarrow> Match list list option" where
  "sent res = map_option (\<lambda>(h, ms, left). ms) res"

definition testRun :: "string list \<Rightarrow> string list \<Rightarrow> string \<Rightarrow> Match list list option" where
  "testRun searches added text =
     Option.bind (New initHeap searches) (\<lambda>(h, p).
     Option.bind (addSearchTerms h (structs h ! p) added) (\<lambda>h'.
     sent (Search h' (structs h ! p) (stringsReader text))))"

section \<open>What the claims speak of\<close>

text \<open>
  \<open>widths r\<close> are the widths of the runes a search reads from \<open>r\<close>: those before the
  first error. \<open>unread r\<close> is what follows that error. \<open>offsetAfter r k\<close> is the sum of
  the widths of the first \<open>k + 1\<close> runes read, in 64-bit arithmetic as \<open>index\<close> is.
\<close>

fun widths :: "readResult list \<Rightarrow> goint list" where
  "widths [] = []"
| "widths (ReadError e # r) = []"
| "widths (Rune c n # r) = n # widths r"

fun unread :: "readResult list \<Rightarrow> readResult list" where
  "unread [] = []"
| "unread (ReadError e # r) = r"
| "unread (Rune c n # r) = unread r"

definition offsetAfter :: "readResult list \<Rightarrow> nat \<Rightarrow> goint" where
  "offsetAfter r k = sum_list (take (Suc k) (widths r))"

fun isRune :: "readResult \<Rightarrow> bool" where
  "isRune (Rune c n) = True"
| "isRune (ReadError e) = False"

text \<open>
  The store in which a search on the value \<open>*New([""])\<close> runs, when \<open>New\<close> was called in
  the store \<open>h\<close>: the root and the receiver's copy of it.
\<close>

definition emptyTermStore :: "heap \<Rightarrow> heap" where
  "emptyTermStore h =
     (let h1 = (setIsWord (newNode h (length (structs h)) 0) (length (structs h)) True)
        \<lparr>strSets := strSets h @ [['''']]\<rparr>
      in h1\<lparr>structs := structs h1 @ [structs h1 ! length (structs h)]\<rparr>)"

text \<open>
  The trie of the test, \<open>New(["a", "can"])\<close> followed by \<open>AddSearchTerm("an")\<close>, as the
  store after the two calls and the value the \<open>Searcher\<close> holds.
\<close>

definition testTrie :: "heap \<times> SearchTrie" where
  "testTrie =
     the (Option.bind (New initHeap [''a'', ''can'']) (\<lambda>(h, p).
          map_option (\<lambda>h'. (h', structs h ! p)) (AddSearchTerm h (structs h ! p) ''an'')))"

section \<open>The shape of the trie\<close>

text \<open>
  \<open>walk h a cs\<close> follows the children maps from \<open>a\<close> along the runes \<open>cs\<close>. A node of the
  trie rooted at \<open>p\<close> is an address \<open>walk h p cs\<close> reaches; \<open>cs\<close> is its path and the
  length of \<open>cs\<close> its depth.
\<close>

fun walk :: "heap \<Rightarrow> addr \<Rightarrow> rune list \<Rightarrow> addr option" where
  "walk h a [] = Some a"
| "walk h a (c # cs) =
     (case map_of (childrenOf h a) c of None \<Rightarrow> None | Some b \<Rightarrow> walk h b cs)"

text \<open>
  A store Go can be in: every pointer and every map reference in it was allocated, and
  no struct has an identifier that \<open>id\<close> has not reached yet.
\<close>

definition storeOk :: "heap \<Rightarrow> bool" where
  "storeOk h \<longleftrightarrow>
     (\<forall>s\<in>set (structs h).
        root s < length (structs h) \<and> children s < length (runeMaps h) \<and>
        ilps s < length (intMaps h) \<and> ot s < length (strSets h) \<and>
        (\<forall>m. lps s = Some m \<longrightarrow> m < length (structs h)) \<and> id_st s \<le> id_var h) \<and>
     (\<forall>al\<in>set (runeMaps h). \<forall>e\<in>set al. snd e < length (structs h)) \<and>
     (\<forall>al\<in>set (intMaps h). \<forall>e\<in>set al. snd e < length (structs h))"

text \<open>
  The invariant of insertion, for the trie rooted at \<open>p\<close>: \<open>T\<close> are its nodes and \<open>d\<close>
  their depths. No two nodes share a map; a child is one deeper than its parent; a
  failure link that is not nil, and an entry of \<open>ilps\<close>, join a node with a strictly
  shallower one; every node has a path as long as its depth.
\<close>

definition trie :: "heap \<Rightarrow> addr \<Rightarrow> addr set \<Rightarrow> (addr \<Rightarrow> nat) \<Rightarrow> bool" where
  "trie h p T d \<longleftrightarrow>
     p \<in> T \<and> d p = 0 \<and>
     (\<forall>a\<in>T. a < length (structs h) \<and> root (structs h ! a) = p) \<and>
     (\<forall>a\<in>T. \<forall>b\<in>T. children (structs h ! a) = children (structs h ! b) \<or>
                      ilps (structs h ! a) = ilps (structs h ! b) \<longrightarrow> a = b) \<and>
     (\<forall>a\<in>T. \<forall>e\<in>set (childrenOf h a). snd e \<in> T \<and> d (snd e) = Suc (d a)) \<and>
     (\<forall>a\<in>T. \<forall>m. lps (structs h ! a) = Some m \<longrightarrow> m \<in> T \<and> d m < d a) \<and>
     (\<forall>a\<in>T. \<forall>e\<in>set (ilpsOf h a). snd e \<in> T \<and> d a < d (snd e)) \<and>
     (\<forall>a\<in>T. \<exists>cs. walk h p cs = Some a \<and> length cs = d a)"

text \<open>
  What no insertion step but the allocation of a node changes: the number of structs
  and of maps, the package variable, the children maps, and every field of every struct
  except \<open>lps\<close> and \<open>isWord\<close>.
\<close>

definition sameRefs :: "heap \<Rightarrow> heap \<Rightarrow> bool" where
  "sameRefs h h' \<longleftrightarrow>
     length (structs h') = length (structs h) \<and> id_var h' = id_var h \<and>
     runeMaps h' = runeMaps h \<and> length (intMaps h') = length (intMaps h) \<and>
     length (strSets h') = length (strSets h) \<and>
     (\<forall>a. root (structs h' ! a) = root (structs h ! a) \<and>
          id_st (structs h' ! a) = id_st (structs h ! a) \<and>
          children (structs h' ! a) = children (structs h ! a) \<and>
          ilps (structs h' ! a) = ilps (structs h ! a) \<and>
          ot (structs h' ! a) = ot (structs h ! a))"

text \<open>
  A node that is its own failure link and an entry of its own \<open>ilps\<close> under its own
  identifier, which no other struct has.
\<close>

definition selfLinked :: "heap \<Rightarrow> addr \<Rightarrow> bool" where
  "selfLinked h k \<longleftrightarrow>
     k < length (structs h) \<and> lps (structs h ! k) = Some k \<and>
     map_of (ilpsOf h k) (id_st (structs h ! k)) = Some k \<and>
     (\<forall>a<length (structs h). id_st (structs h ! a) = id_st (structs h ! k) \<longrightarrow> a = k)"

text \<open>What a step that only stores into \<open>ot\<close> maps leaves as it was.\<close>

definition onlyOt :: "heap \<Rightarrow> heap \<Rightarrow> bool" where
  "onlyOt h h' \<longleftrightarrow>
     structs h' = structs h \<and> id_var h' = id_var h \<and> runeMaps h' = runeMaps h \<and>
     intMaps h' = intMaps h \<and> length (strSets h') = length (strSets h)"

text \<open>
  What insertion never changes: a struct, once allocated, keeps its root, its
  identifier and its three map references, and nothing is ever freed.
\<close>

definition grows :: "heap \<Rightarrow> heap \<Rightarrow> bool" where
  "grows h h' \<longleftrightarrow>
     length (structs h) \<le> length (structs h') \<and> id_var h \<le> id_var h' \<and>
     (\<forall>a<length (structs h).
          root (structs h' ! a) = root (structs h ! a) \<and>
          id_st (structs h' ! a) = id_st (structs h ! a) \<and>
          children (structs h' ! a) = children (structs h ! a) \<and>
          ilps (structs h' ! a) = ilps (structs h ! a) \<and>
          ot (structs h' ! a) = ot (structs h ! a))"

text \<open>
  The value a \<open>Searcher\<close> holds is a copy of the root struct: it names the root and
  shares the root's maps, and its own \<open>lps\<close> is nil.
\<close>

definition rootCopy :: "heap \<Rightarrow> addr \<Rightarrow> SearchTrie \<Rightarrow> bool" where
  "rootCopy h p v \<longleftrightarrow>
     root v = p \<and> lps v = None \<and> id_st v = id_st (structs h ! p) \<and>
     children v = children (structs h ! p) \<and> ilps v = ilps (structs h ! p) \<and>
     ot v = ot (structs h ! p)"

text \<open>
  A struct that \<open>isRoot\<close> does not take for the root although it has no proper
  failure link: a copy of the root made for a value receiver (its \<open>lps\<close> is nil and it
  shares the root's children map), or a node that is its own failure link.
\<close>

definition offRoot :: "heap \<Rightarrow> addr \<Rightarrow> bool" where
  "offRoot h s \<longleftrightarrow>
     s < length (structs h) \<and> root (structs h ! s) < length (structs h) \<and>
     root (structs h ! s) \<noteq> s \<and> isRoot h (root (structs h ! s)) \<and>
     (lps (structs h ! s) = None \<and>
        children (structs h ! s) = children (structs h ! root (structs h ! s)) \<or>
      lps (structs h ! s) = Some s)"

text \<open>The store and the address that \<open>New(["a", "can"])\<close> gives in the initial store.\<close>

definition testBuilt :: "heap \<times> addr" where
  "testBuilt = the (New initHeap [''a'', ''can''])"

section \<open>Searching\<close>

lemma searchLoop_location:
  "searchLoop h n i r = Some (mss, left) \<Longrightarrow> k < length mss \<Longrightarrow> m \<in> set (mss ! k) \<Longrightarrow>
   Location m = (i + sum_list (take (Suc k) (widths r)) - of_nat (length (Term m)),
                 i + sum_list (take (Suc k) (widths r)))"
proof (induction h n i r arbitrary: mss k rule: searchLoop.induct)
  case (1 h n index)
  then show ?case by simp
next
  case (2 h n index e r)
  then show ?case by simp
next
  case (3 h n index c nbytes r)
  from "3.prems"(1) obtain t where t: "fallBack h n c = Some t"
    by (auto split: option.splits)
  from "3.prems"(1) t obtain rest where
    rest: "searchLoop h (getChild h t c) (index + nbytes) r = Some (rest, left)"
    and mss: "mss = emit h (getChild h t c) (index + nbytes) # rest"
    by auto
  show ?case
  proof (cases k)
    case 0
    with "3.prems"(3) mss show ?thesis by (auto simp: emit_def)
  next
    case (Suc j)
    with "3.prems" mss have "j < length rest" "m \<in> set (rest ! j)" by auto
    from "3.IH"[OF t rest this] Suc show ?thesis by (simp add: add.assoc)
  qed
qed

lemma searchLoop_error:
  "\<forall>x\<in>set pre. isRune x \<Longrightarrow>
   searchLoop h n i (pre @ ReadError e # rest) =
     map_option (\<lambda>(ms, left). (ms, rest)) (searchLoop h n i pre)"
proof (induction pre arbitrary: n i)
  case Nil
  then show ?case by simp
next
  case (Cons x pre)
  then obtain c w where x: "x = Rune c w" by (cases x) auto
  from Cons have IH: "\<And>n i. searchLoop h n i (pre @ ReadError e # rest) =
     map_option (\<lambda>(ms, left). (ms, rest)) (searchLoop h n i pre)" by simp
  show ?case
    by (simp add: x IH option.map_comp comp_def split_def split: option.splits)
qed

text \<open>
  C6. The test's scenario: after \<open>New(["a", "can"])\<close> and \<open>AddSearchTerm("an")\<close>, the search
  of \<open>"you can do it!"\<close> returns, and sends \<open>{"a", [5,6)}\<close> for the sixth rune,
  \<open>{"can", [4,7)}\<close> and \<open>{"an", [5,7)}\<close> for the seventh, and nothing for any other rune.
  (The order of the two matches of the seventh rune is the order of the model's list;
  Go does not fix it.)
\<close>

theorem worked_scenario:
  "testRun [''a'', ''can''] [''an''] ''you can do it!'' =
     Some [[], [], [], [], [],
           [\<lparr>Term = ''a'', Location = (5, 6)\<rparr>],
           [\<lparr>Term = ''can'', Location = (4, 7)\<rparr>, \<lparr>Term = ''an'', Location = (5, 7)\<rparr>],
           [], [], [], [], [], [], []]"
  by code_simp

text \<open>
  C7. A read that fails ends the search as the end of the input does. Let the reader
  give the runes \<open>pre\<close>, then fail with any error \<open>e\<close>, and let \<open>rest\<close> be what it would
  give afterwards. The search sends exactly what it sends when the reader ends after
  \<open>pre\<close>, leaves the store as that search does, and leaves \<open>rest\<close> unread; the result
  carries no error and does not depend on \<open>e\<close>.
\<close>

theorem read_failure_ends_search:
  "\<forall>x\<in>set pre. isRune x \<Longrightarrow>
   Search h s (pre @ ReadError e # rest) =
     map_option (\<lambda>(h', ms, left). (h', ms, rest)) (Search h s pre)"
  by (simp add: Search_def searchLoop_error option.map_comp comp_def split_def)

theorem read_failure_ends_search_witness:
  "Search (fst testTrie) (snd testTrie)
     (stringsReader ''can'' @ ReadError ''unexpected EOF'' # stringsReader ''an'') =
   Some ((fst testTrie)\<lparr>structs := structs (fst testTrie) @ [snd testTrie]\<rparr>,
         [[], [\<lparr>Term = ''a'', Location = (1, 2)\<rparr>],
          [\<lparr>Term = ''can'', Location = (0, 3)\<rparr>, \<lparr>Term = ''an'', Location = (1, 3)\<rparr>]],
         stringsReader ''an'')"
proof -
  have pre: "\<forall>x\<in>set (stringsReader ''can''). isRune x"
    by code_simp
  have run: "Search (fst testTrie) (snd testTrie) (stringsReader ''can'') =
     Some ((fst testTrie)\<lparr>structs := structs (fst testTrie) @ [snd testTrie]\<rparr>,
         [[], [\<lparr>Term = ''a'', Location = (1, 2)\<rparr>],
          [\<lparr>Term = ''can'', Location = (0, 3)\<rparr>, \<lparr>Term = ''an'', Location = (1, 3)\<rparr>]],
         [])"
    by code_simp
  show ?thesis
    using read_failure_ends_search[OF pre, of "fst testTrie" "snd testTrie"
        "''unexpected EOF''" "stringsReader ''an''"]
    by (simp add: run)
qed

text \<open>
  C8. Every match a search sends for its \<open>(k+1)\<close>-th rune has the location
  \<open>[offset - len(term), offset)\<close>, where \<open>offset\<close> is the sum of the widths of the
  \<open>k + 1\<close> runes read so far; so its end minus its start is the byte length of its term
  (all in the 64-bit arithmetic of \<open>int\<close>).
\<close>

theorem match_location:
  "Search h s r = Some (h', mss, left) \<Longrightarrow> k < length mss \<Longrightarrow> m \<in> set (mss ! k) \<Longrightarrow>
   Location m = (offsetAfter r k - of_nat (length (Term m)), offsetAfter r k) \<and>
   snd (Location m) - fst (Location m) = of_nat (length (Term m))"
proof -
  assume a: "Search h s r = Some (h', mss, left)" "k < length mss" "m \<in> set (mss ! k)"
  from a(1) have "searchLoop (h\<lparr>structs := structs h @ [s]\<rparr>) (length (structs h)) 0 r
      = Some (mss, left)"
    by (auto simp: Search_def)
  from searchLoop_location[OF this a(2,3)] show ?thesis
    by (simp add: offsetAfter_def)
qed

theorem match_location_witness:
  "Location \<lparr>Term = ''an'', Location = (5, 7)\<rparr> =
     (offsetAfter (stringsReader ''you can do it!'') 6 - of_nat (length ''an''),
      offsetAfter (stringsReader ''you can do it!'') 6) \<and>
   offsetAfter (stringsReader ''you can do it!'') 6 = 7 \<and>
   (7 :: goint) - 5 = of_nat (length ''an'')"
proof -
  have run: "Search (fst testTrie) (snd testTrie) (stringsReader ''you can do it!'') =
     Some ((fst testTrie)\<lparr>structs := structs (fst testTrie) @ [snd testTrie]\<rparr>,
       [[], [], [], [], [],
        [\<lparr>Term = ''a'', Location = (5, 6)\<rparr>],
        [\<lparr>Term = ''can'', Location = (4, 7)\<rparr>, \<lparr>Term = ''an'', Location = (5, 7)\<rparr>],
        [], [], [], [], [], [], []], [])"
    by code_simp
  have off: "offsetAfter (stringsReader ''you can do it!'') 6 = 7"
    by code_simp
  show ?thesis
    using match_location[OF run, of 6 "\<lparr>Term = ''an'', Location = (5, 7)\<rparr>"]
    by (simp add: off)
qed

text \<open>
  C9. A search changes nothing in the trie. The store after it is the store before it
  with the receiver's copy \<open>s\<close> placed at a fresh address: the package variable, every
  struct that was there (all its fields) and every map are as they were. This holds for
  every reader, hence for every point at which the consumer may stop reading the channel.
\<close>

theorem search_read_only:
  "Search h s r = Some (h', mss, left) \<Longrightarrow>
   h' = h\<lparr>structs := structs h @ [s]\<rparr> \<and>
   id_var h' = id_var h \<and>
   take (length (structs h)) (structs h') = structs h \<and>
   runeMaps h' = runeMaps h \<and> intMaps h' = intMaps h \<and> strSets h' = strSets h"
  by (auto simp: Search_def)

theorem search_read_only_witness:
  "take (length (structs (fst testTrie)))
     (structs (fst (the (Search (fst testTrie) (snd testTrie) (stringsReader ''you can do it!'')))))
     = structs (fst testTrie) \<and>
   runeMaps (fst (the (Search (fst testTrie) (snd testTrie) (stringsReader ''you can do it!''))))
     = runeMaps (fst testTrie) \<and>
   intMaps (fst (the (Search (fst testTrie) (snd testTrie) (stringsReader ''you can do it!''))))
     = intMaps (fst testTrie) \<and>
   strSets (fst (the (Search (fst testTrie) (snd testTrie) (stringsReader ''you can do it!''))))
     = strSets (fst testTrie)"
proof -
  have run: "Search (fst testTrie) (snd testTrie) (stringsReader ''you can do it!'') =
     Some ((fst testTrie)\<lparr>structs := structs (fst testTrie) @ [snd testTrie]\<rparr>,
       [[], [], [], [], [],
        [\<lparr>Term = ''a'', Location = (5, 6)\<rparr>],
        [\<lparr>Term = ''can'', Location = (4, 7)\<rparr>, \<lparr>Term = ''an'', Location = (5, 7)\<rparr>],
        [], [], [], [], [], [], []], [])"
    by code_simp
  show ?thesis
    using search_read_only[OF run]
    by (simp add: run)
qed

lemma enterOutputs_Nil: "enterOutputs h [] str = Some h"
  by (simp add: enterOutputs.simps)

lemma buildFailureLoop_Nil: "buildFailureLoop h [] = Some h"
  by (simp add: buildFailureLoop.simps)

lemma New_empty_term:
  "New h [''''] = Some
     ((setIsWord (newNode h (length (structs h)) 0) (length (structs h)) True)
        \<lparr>strSets := strSets h @ [['''']]\<rparr>, length (structs h))"
  by (simp add: New_def enterInTrie_def runes_def decodeString_def enterOutput_def
      enterOutputs.simps[of _ "[x]" for x] enterOutputs_Nil buildFailureFn_def buildFailureLoop_Nil
      ilpsOf_def childrenOf_def otOf_def newNode_def setIsWord_def putOt_def Let_def)

lemma emptyTermStore_eq:
  "emptyTermStore h =
     \<lparr>id_var = id_var h + 1,
      structs = structs h @
        [\<lparr>id_st = id_var h + 1, root = length (structs h), char = 0, isWord = True,
          children = length (runeMaps h), lps = None,
          ilps = length (intMaps h), ot = length (strSets h)\<rparr>,
         \<lparr>id_st = id_var h + 1, root = length (structs h), char = 0, isWord = True,
          children = length (runeMaps h), lps = None,
          ilps = length (intMaps h), ot = length (strSets h)\<rparr>],
      runeMaps = runeMaps h @ [[]],
      intMaps = intMaps h @ [[]],
      strSets = strSets h @ [['''']]\<rparr>"
  by (simp add: emptyTermStore_def newNode_def setIsWord_def Let_def)

lemma emptyTerm_root:
  "isRoot (emptyTermStore h) (length (structs h))"
  "\<not> isRoot (emptyTermStore h) (Suc (length (structs h)))"
  "failureFn (emptyTermStore h) (Suc (length (structs h))) = length (structs h)"
  "childrenOf (emptyTermStore h) (Suc (length (structs h))) = []"
  "childrenOf (emptyTermStore h) (length (structs h)) = []"
  "otOf (emptyTermStore h) (length (structs h)) = ['''']"
  by (simp_all add: emptyTermStore_eq isRoot_def failureFn_def childrenOf_def otOf_def nth_append)

lemma emptyTerm_fallBack:
  "n = length (structs h) \<or> n = Suc (length (structs h)) \<Longrightarrow>
   fallBack (emptyTermStore h) n c = Some (length (structs h))"
  apply (erule disjE)
   apply (subst fallBack.simps)
   apply (simp add: emptyTerm_root)
  apply (subst fallBack.simps)
  apply (simp add: emptyTerm_root)
  apply (subst fallBack.simps)
  apply (simp add: emptyTerm_root)
  done

lemma emptyTerm_getChild:
  "getChild (emptyTermStore h) (length (structs h)) c = length (structs h)"
  by (simp add: getChild_def emptyTerm_root) (simp add: emptyTermStore_eq nth_append)

lemma emptyTerm_emit:
  "emit (emptyTermStore h) (length (structs h)) i = [\<lparr>Term = '''', Location = (i, i)\<rparr>]"
  by (simp add: emit_def emptyTerm_root)

lemma emptyTerm_searchLoop:
  "n = length (structs h) \<or> n = Suc (length (structs h)) \<Longrightarrow>
   searchLoop (emptyTermStore h) n i r =
     Some (map (\<lambda>k. [\<lparr>Term = '''', Location = (i + sum_list (take (Suc k) (widths r)),
                                               i + sum_list (take (Suc k) (widths r)))\<rparr>])
             [0..<length (widths r)], unread r)"
proof (induction r arbitrary: n i)
  case Nil
  then show ?case by simp
next
  case (Cons x r)
  show ?case
  proof (cases x)
    case (ReadError e)
    then show ?thesis by simp
  next
    case (Rune c w)
    have IH: "searchLoop (emptyTermStore h) (length (structs h)) (i + w) r =
     Some (map (\<lambda>k. [\<lparr>Term = '''', Location = (i + w + sum_list (take (Suc k) (widths r)),
                                               i + w + sum_list (take (Suc k) (widths r)))\<rparr>])
             [0..<length (widths r)], unread r)"
      by (rule Cons.IH) simp
    have shift: "[0..<Suc (length (widths r))] = 0 # map Suc [0..<length (widths r)]"
      by (simp add: upt_conv_Cons map_Suc_upt del: upt_Suc)
    show ?thesis
      unfolding Rune
      by (simp add: emptyTerm_fallBack[OF Cons.prems] emptyTerm_getChild emptyTerm_emit IH
          shift comp_def add.assoc del: upt_Suc)
  qed
qed

lemma unat_sum_list:
  "sum_list (map unat ws) < 2 ^ 64 \<Longrightarrow> unat (sum_list ws :: 64 word) = sum_list (map unat ws)"
proof (induction ws)
  case Nil
  then show ?case by simp
next
  case (Cons w ws)
  then have "unat (sum_list ws) = sum_list (map unat ws)" by simp
  with Cons.prems show ?case
    by (simp add: unat_add_lem[THEN iffD1])
qed

lemma offset_nonzero:
  assumes pos: "\<forall>w\<in>set (widths r). w \<noteq> 0"
    and small: "sum_list (map unat (widths r)) < 2 ^ 64"
    and k: "k < length (widths r)"
  shows "offsetAfter r k \<noteq> 0"
proof -
  obtain w ws where ws: "widths r = w # ws" using k by (cases "widths r") auto
  let ?p = "take (Suc k) (widths r)"
  have "sum_list (map unat ?p) + sum_list (map unat (drop (Suc k) (widths r)))
        = sum_list (map unat (widths r))"
    by (metis append_take_drop_id map_append sum_list.append)
  with small have lt: "sum_list (map unat ?p) < 2 ^ 64" by linarith
  have "w \<noteq> 0" using pos ws by simp
  then have "0 < unat w" by (simp add: unat_gt_0)
  then have "0 < sum_list (map unat ?p)" by (simp add: ws)
  with unat_sum_list[OF lt] have "unat (sum_list ?p) \<noteq> 0" by linarith
  then have "sum_list ?p \<noteq> 0" by (metis unat_0)
  then show ?thesis unfolding offsetAfter_def .
qed

text \<open>
  C10, as amended. The empty string as the only term. \<open>New([""])\<close> returns, in any
  store; a search on the value it returns returns for every reader, and sends exactly
  one match per rune read, \<open>{"", [i, i)}\<close> with \<open>i\<close> the offset after that rune, so nothing
  for an empty input. \<open>Search\<close> adds to \<open>index\<close> whatever width \<open>ReadRune\<close> reports, with
  no test of it, so that no empty match is sent at offset 0 holds of the readers that
  report no width of zero and whose widths, read as unsigned numbers, add up to less
  than \<open>2^64\<close>; of these it holds at every rune read. The readers of the library report
  widths from 1 to 4.
\<close>

theorem empty_term_search:
  "\<exists>h1 p. New h [''''] = Some (h1, p) \<and>
     (\<forall>r. \<exists>h2. Search h1 (structs h1 ! p) r =
        Some (h2, map (\<lambda>k. [\<lparr>Term = '''', Location = (offsetAfter r k, offsetAfter r k)\<rparr>])
                    [0..<length (widths r)], unread r)) \<and>
     (\<forall>r. (\<forall>w\<in>set (widths r). w \<noteq> 0) \<and> sum_list (map unat (widths r)) < 2 ^ 64 \<longrightarrow>
        (\<forall>k<length (widths r). offsetAfter r k \<noteq> 0))"
proof -
  let ?h1 = "(setIsWord (newNode h (length (structs h)) 0) (length (structs h)) True)
        \<lparr>strSets := strSets h @ [['''']]\<rparr>"
  have len: "length (structs ?h1) = Suc (length (structs h))"
    by (simp add: setIsWord_def newNode_def)
  have store: "?h1\<lparr>structs := structs ?h1 @ [structs ?h1 ! length (structs h)]\<rparr> = emptyTermStore h"
    by (simp add: emptyTermStore_def Let_def)
  have "Search ?h1 (structs ?h1 ! length (structs h)) r =
        Some (emptyTermStore h, map (\<lambda>k. [\<lparr>Term = '''', Location = (offsetAfter r k, offsetAfter r k)\<rparr>])
                    [0..<length (widths r)], unread r)" for r
  proof -
    have "Search ?h1 (structs ?h1 ! length (structs h)) r =
          map_option (Pair (emptyTermStore h))
            (searchLoop (emptyTermStore h) (Suc (length (structs h))) 0 r)"
      by (simp only: Search_def store len)
    also have "searchLoop (emptyTermStore h) (Suc (length (structs h))) 0 r =
       Some (map (\<lambda>k. [\<lparr>Term = '''', Location = (0 + sum_list (take (Suc k) (widths r)),
                                               0 + sum_list (take (Suc k) (widths r)))\<rparr>])
             [0..<length (widths r)], unread r)"
      by (rule emptyTerm_searchLoop) simp
    finally show ?thesis by (simp only: offsetAfter_def add_0 option.map prod.case)
  qed
  then have srch: "\<forall>r. \<exists>h2. Search ?h1 (structs ?h1 ! length (structs h)) r =
        Some (h2, map (\<lambda>k. [\<lparr>Term = '''', Location = (offsetAfter r k, offsetAfter r k)\<rparr>])
                    [0..<length (widths r)], unread r)"
    by (intro allI exI)
  have nz: "\<forall>r. (\<forall>w\<in>set (widths r). w \<noteq> 0) \<and> sum_list (map unat (widths r)) < 2 ^ 64 \<longrightarrow>
        (\<forall>k<length (widths r). offsetAfter r k \<noteq> 0)"
    using offset_nonzero by blast
  show ?thesis
    apply (rule exI[of _ ?h1])
    apply (rule exI[of _ "length (structs h)"])
    apply (intro conjI)
      apply (rule New_empty_term)
     apply (rule srch)
    apply (rule nz)
    done
qed


theorem empty_term_search_witness:
  "\<exists>h1 p h2. New initHeap [''''] = Some (h1, p) \<and>
     Search h1 (structs h1 ! p) (stringsReader ''ab'') =
       Some (h2, [[\<lparr>Term = '''', Location = (1, 1)\<rparr>], [\<lparr>Term = '''', Location = (2, 2)\<rparr>]], []) \<and>
     offsetAfter (stringsReader ''ab'') 0 \<noteq> 0 \<and> offsetAfter (stringsReader ''ab'') 1 \<noteq> 0"
proof -
  from empty_term_search[of initHeap] obtain h1 p where
    n: "New initHeap [''''] = Some (h1, p)" and
    s: "\<forall>r. \<exists>h2. Search h1 (structs h1 ! p) r =
        Some (h2, map (\<lambda>k. [\<lparr>Term = '''', Location = (offsetAfter r k, offsetAfter r k)\<rparr>])
                    [0..<length (widths r)], unread r)" and
    z: "\<forall>r. (\<forall>w\<in>set (widths r). w \<noteq> 0) \<and> sum_list (map unat (widths r)) < 2 ^ 64 \<longrightarrow>
        (\<forall>k<length (widths r). offsetAfter r k \<noteq> 0)"
    by blast
  from s obtain h2 where
    "Search h1 (structs h1 ! p) (stringsReader ''ab'') =
        Some (h2, map (\<lambda>k. [\<lparr>Term = '''', Location = (offsetAfter (stringsReader ''ab'') k,
                                                       offsetAfter (stringsReader ''ab'') k)\<rparr>])
                    [0..<length (widths (stringsReader ''ab''))], unread (stringsReader ''ab''))"
    by blast
  moreover have "map (\<lambda>k. [\<lparr>Term = '''', Location = (offsetAfter (stringsReader ''ab'') k,
                                                       offsetAfter (stringsReader ''ab'') k)\<rparr>])
                    [0..<length (widths (stringsReader ''ab''))] =
      [[\<lparr>Term = '''', Location = (1, 1)\<rparr>], [\<lparr>Term = '''', Location = (2, 2)\<rparr>]]"
    by code_simp
  moreover have "unread (stringsReader ''ab'') = []"
    by code_simp
  ultimately have srch: "Search h1 (structs h1 ! p) (stringsReader ''ab'') =
       Some (h2, [[\<lparr>Term = '''', Location = (1, 1)\<rparr>], [\<lparr>Term = '''', Location = (2, 2)\<rparr>]], [])"
    by simp
  have w: "widths (stringsReader ''ab'') = [1, 1]"
    by code_simp
  have hyp: "(\<forall>w\<in>set (widths (stringsReader ''ab'')). w \<noteq> 0) \<and>
      sum_list (map unat (widths (stringsReader ''ab''))) < 2 ^ 64"
    unfolding w by simp
  from z have "(\<forall>w\<in>set (widths (stringsReader ''ab'')). w \<noteq> 0) \<and>
      sum_list (map unat (widths (stringsReader ''ab''))) < 2 ^ 64 \<longrightarrow>
      (\<forall>k<length (widths (stringsReader ''ab'')). offsetAfter (stringsReader ''ab'') k \<noteq> 0)"
    by (rule spec)
  from this hyp
  have "\<forall>k<length (widths (stringsReader ''ab'')). offsetAfter (stringsReader ''ab'') k \<noteq> 0"
    by (rule mp)
  then have "offsetAfter (stringsReader ''ab'') 0 \<noteq> 0" "offsetAfter (stringsReader ''ab'') 1 \<noteq> 0"
    unfolding w by simp_all
  with n srch show ?thesis by blast
qed

text \<open>
  C10 as the claim states it, with no condition on the reader, fails. On the value
  \<open>*New([""])\<close>, a reader whose one read reports the rune \<open>a\<close> with width 0 leaves
  \<open>index\<close> at 0, and the search sends \<open>{"", [0, 0)}\<close>. A reader whose two reads report the
  widths -1 and 1 brings \<open>index\<close> to -1 and back to 0, and the second match sent is
  \<open>{"", [0, 0)}\<close>: no width is zero, and the unsigned widths add up to \<open>2^64\<close>.
\<close>

theorem empty_match_at_offset_zero:
  "Option.bind (New initHeap [''''])
     (\<lambda>(h, p). sent (Search h (structs h ! p) [Rune 97 0])) =
     Some [[\<lparr>Term = '''', Location = (0, 0)\<rparr>]] \<and>
   Option.bind (New initHeap [''''])
     (\<lambda>(h, p). sent (Search h (structs h ! p) [Rune 97 (- 1), Rune 98 1])) =
     Some [[\<lparr>Term = '''', Location = (- 1, - 1)\<rparr>], [\<lparr>Term = '''', Location = (0, 0)\<rparr>]]"
  by code_simp

section \<open>Insertion after construction\<close>

lemmas enterOutputs_induct = enterOutputs.raw_induct[rotated 1, consumes 1, case_names step]

text \<open>
  An \<open>enterOutput\<close> that returns has changed no struct and no \<open>ilps\<close> map, and it was
  called on no node that is a value of its own \<open>ilps\<close> map: on such a node the
  recursion calls itself on the same node for ever.
\<close>

lemma enterOutputs_no_self:
  "enterOutputs h xs str = Some h' \<Longrightarrow>
     (\<forall>x\<in>set xs. x \<notin> snd ` set (ilpsOf h x)) \<and> structs h' = structs h \<and> intMaps h' = intMaps h"
proof (induction rule: enterOutputs_induct)
  case (step f h xs str h')
  show ?case
  proof (cases xs)
    case Nil
    with step(2) show ?thesis by simp
  next
    case (Cons s rest)
    with step(2) obtain h1 where
      a: "f (putOt h s str) (map snd (ilpsOf h s)) str = Some h1"
      and b: "f h1 rest str = Some h'"
      by (auto simp: bind_eq_Some_conv)
    have frame: "structs (putOt h s str) = structs h" "intMaps (putOt h s str) = intMaps h"
      by (simp_all add: putOt_def)
    from step(1)[OF a] frame have
      a1: "\<forall>x\<in>snd ` set (ilpsOf h s). x \<notin> snd ` set (ilpsOf h x)"
      and a2: "structs h1 = structs h" "intMaps h1 = intMaps h"
      by (simp_all add: ilpsOf_def)
    from step(1)[OF b] a2 have
      b1: "\<forall>x\<in>set rest. x \<notin> snd ` set (ilpsOf h x)"
      and b2: "structs h' = structs h" "intMaps h' = intMaps h"
      by (simp_all add: ilpsOf_def)
    from a1 have "s \<notin> snd ` set (ilpsOf h s)" by blast
    with b1 b2 Cons show ?thesis by simp
  qed
qed

lemma enterOutput_self_diverges:
  "s \<in> snd ` set (ilpsOf h s) \<Longrightarrow> enterOutput h s str = None"
proof (cases "enterOutput h s str")
  case None
  then show ?thesis .
next
  case (Some h')
  assume "s \<in> snd ` set (ilpsOf h s)"
  with enterOutputs_no_self[of h "[s]" str h'] Some show ?thesis
    by (simp add: enterOutput_def)
qed

text \<open>
  C1. \<open>New(["bc", "cx"])\<close> followed by \<open>AddSearchTerm("c")\<close>, and \<open>New(["bc", "cx", "c"])\<close>,
  both searched over \<open>"bc"\<close>: the first sends \<open>{"bc", [0,2)}\<close> for the second rune, the
  second sends \<open>{"bc", [0,2)}\<close> and \<open>{"c", [1,2)}\<close>. The maps that hold two keys when
  they are ranged over are the root's children in \<open>buildFailureFn\<close>, where the order
  changes no link and no \<open>ot\<close>, and in the second run the \<open>ot\<close> of the node \<open>bc\<close>,
  where it changes the order of the two matches only.
\<close>

theorem incremental_differs_from_batch:
  "testRun [''bc'', ''cx''] [''c''] ''bc'' =
     Some [[], [\<lparr>Term = ''bc'', Location = (0, 2)\<rparr>]] \<and>
   testRun [''bc'', ''cx'', ''c''] [] ''bc'' =
     Some [[], [\<lparr>Term = ''bc'', Location = (0, 2)\<rparr>, \<lparr>Term = ''c'', Location = (1, 2)\<rparr>]]"
  by code_simp

text \<open>
  C2. \<open>New(["bcd", "c"])\<close> followed by \<open>AddSearchTerm("cd")\<close>, searched over \<open>"bcd"\<close>: for
  the third rune only \<open>{"bcd", [0,3)}\<close> is sent, although \<open>"cd"\<close> was inserted and is a
  suffix of the text read.
\<close>

theorem inserted_suffix_not_reported:
  "testRun [''bcd'', ''c''] [''cd''] ''bcd'' =
     Some [[], [\<lparr>Term = ''c'', Location = (1, 2)\<rparr>], [\<lparr>Term = ''bcd'', Location = (0, 3)\<rparr>]]"
  by code_simp

text \<open>
  C3. The store after \<open>New(["bc", "c"])\<close>. The structs are the root, \<open>b\<close>, \<open>bc\<close> and \<open>c\<close>,
  in this order. The failure link of \<open>b\<close> is nil, which \<open>failureFn\<close> reads as the root,
  and \<open>b\<close> is not in the root's \<open>ilps\<close>. The failure link of \<open>bc\<close> is \<open>c\<close>, and \<open>bc\<close> is
  not in the \<open>ilps\<close> of \<open>c\<close> but in that of the root.
\<close>

theorem inverse_links_after_New:
  "New initHeap [''bc'', ''c''] =
     Some (\<lparr>id_var = 3,
            structs =
              [\<lparr>id_st = 0, root = 0, char = 0, isWord = False, children = 0,
                lps = None, ilps = 0, ot = 0\<rparr>,
               \<lparr>id_st = 1, root = 0, char = 98, isWord = False, children = 1,
                lps = None, ilps = 1, ot = 1\<rparr>,
               \<lparr>id_st = 2, root = 0, char = 99, isWord = True, children = 2,
                lps = Some 3, ilps = 2, ot = 2\<rparr>,
               \<lparr>id_st = 3, root = 0, char = 99, isWord = True, children = 3,
                lps = None, ilps = 3, ot = 3\<rparr>],
            runeMaps = [[(98, 1), (99, 3)], [(99, 2)], [], []],
            intMaps = [[(2, 2)], [], [], []],
            strSets = [[], [], [''bc'', ''c''], [''c'']]\<rparr>, 0)"
  by code_simp

text \<open>
  C4. \<open>AddSearchTerm("b")\<close> on the value \<open>*New([])\<close> does not return. The receiver's copy
  is at address 1 and is not the root, so \<open>completeFailureFn\<close> does not stop at
  \<open>isRoot\<close>: it makes the new node (address 2) its own failure link, \<open>enterChild\<close> puts
  the node into its own \<open>ilps\<close>, and \<open>enterOutput\<close> then calls itself on it for ever.
\<close>

theorem add_term_new_first_rune:
  "\<exists>h. New initHeap [] = Some (h, 0) \<and>
     enterPath (h\<lparr>structs := structs h @ [structs h ! 0]\<rparr>) 1 (runes ''b'') =
       Some (\<lparr>id_var = 1,
              structs =
                [\<lparr>id_st = 0, root = 0, char = 0, isWord = False, children = 0,
                  lps = None, ilps = 0, ot = 0\<rparr>,
                 \<lparr>id_st = 0, root = 0, char = 0, isWord = False, children = 0,
                  lps = None, ilps = 0, ot = 0\<rparr>,
                 \<lparr>id_st = 1, root = 0, char = 98, isWord = False, children = 1,
                  lps = Some 2, ilps = 1, ot = 1\<rparr>],
              runeMaps = [[(98, 2)], []],
              intMaps = [[], [(1, 2)]],
              strSets = [[], []]\<rparr>, 2) \<and>
     AddSearchTerm h (structs h ! 0) ''b'' = None"
proof -
  let ?h = "\<lparr>id_var = 0,
      structs = [\<lparr>id_st = 0, root = 0, char = 0, isWord = False, children = 0,
                 lps = None, ilps = 0, ot = 0\<rparr>],
      runeMaps = [[]], intMaps = [[]], strSets = [[]]\<rparr>"
  let ?h2 = "\<lparr>id_var = 1,
              structs =
                [\<lparr>id_st = 0, root = 0, char = 0, isWord = False, children = 0,
                  lps = None, ilps = 0, ot = 0\<rparr>,
                 \<lparr>id_st = 0, root = 0, char = 0, isWord = False, children = 0,
                  lps = None, ilps = 0, ot = 0\<rparr>,
                 \<lparr>id_st = 1, root = 0, char = 98, isWord = False, children = 1,
                  lps = Some 2, ilps = 1, ot = 1\<rparr>],
              runeMaps = [[(98, 2)], []],
              intMaps = [[], [(1, 2)]],
              strSets = [[], []]\<rparr>"
  have new: "New initHeap [] = Some (?h, 0)"
    by code_simp
  have path: "enterPath (?h\<lparr>structs := structs ?h @ [structs ?h ! 0]\<rparr>) 1 (runes ''b'') =
      Some (?h2, 2)"
    by code_simp
  have "2 \<in> snd ` set (ilpsOf (setIsWord ?h2 2 True) 2)"
    by (simp add: ilpsOf_def setIsWord_def)
  then have "enterOutput (setIsWord ?h2 2 True) 2 ''b'' = None"
    by (rule enterOutput_self_diverges)
  then have "AddSearchTerm ?h (structs ?h ! 0) ''b'' = None"
    using path by (simp add: AddSearchTerm_def enterInTrie_def)
  with new path show ?thesis by blast
qed

section \<open>The steps of insertion, one by one\<close>

lemma upd_lps_fields:
  "root (xs[a := (xs ! a)\<lparr>lps := x\<rparr>] ! b) = root (xs ! b)"
  "id_st (xs[a := (xs ! a)\<lparr>lps := x\<rparr>] ! b) = id_st (xs ! b)"
  "children (xs[a := (xs ! a)\<lparr>lps := x\<rparr>] ! b) = children (xs ! b)"
  "ilps (xs[a := (xs ! a)\<lparr>lps := x\<rparr>] ! b) = ilps (xs ! b)"
  "ot (xs[a := (xs ! a)\<lparr>lps := x\<rparr>] ! b) = ot (xs ! b)"
  by (cases "a < length xs"; simp add: nth_list_update list_update_beyond not_less)+

lemma upd_isWord_fields:
  "root (xs[a := (xs ! a)\<lparr>isWord := w\<rparr>] ! b) = root (xs ! b)"
  "id_st (xs[a := (xs ! a)\<lparr>isWord := w\<rparr>] ! b) = id_st (xs ! b)"
  "children (xs[a := (xs ! a)\<lparr>isWord := w\<rparr>] ! b) = children (xs ! b)"
  "ilps (xs[a := (xs ! a)\<lparr>isWord := w\<rparr>] ! b) = ilps (xs ! b)"
  "ot (xs[a := (xs ! a)\<lparr>isWord := w\<rparr>] ! b) = ot (xs ! b)"
  "lps (xs[a := (xs ! a)\<lparr>isWord := w\<rparr>] ! b) = lps (xs ! b)"
  by (cases "a < length xs"; simp add: nth_list_update list_update_beyond not_less)+

lemma lps_setLps:
  "lps (structs (setLps h a x) ! b) =
     (if b = a \<and> a < length (structs h) then x else lps (structs h ! b))"
  by (cases "a < length (structs h)") (auto simp: setLps_def nth_list_update not_less list_update_beyond)

lemma sameRefs_refl: "sameRefs h h"
  by (simp add: sameRefs_def)

lemma sameRefs_trans: "sameRefs h h1 \<Longrightarrow> sameRefs h1 h2 \<Longrightarrow> sameRefs h h2"
  by (simp add: sameRefs_def)

lemma sameRefs_setLps: "sameRefs h (setLps h a x)"
  by (simp add: sameRefs_def setLps_def upd_lps_fields)

lemma sameRefs_setIsWord: "sameRefs h (setIsWord h a w)"
  by (simp add: sameRefs_def setIsWord_def upd_isWord_fields)

lemma sameRefs_putIlps: "sameRefs h (putIlps h a k x)"
  by (simp add: sameRefs_def putIlps_def)

lemma sameRefs_deleteIlps: "sameRefs h (deleteIlps h a k)"
  by (simp add: sameRefs_def deleteIlps_def)

lemma sameRefs_putOt: "sameRefs h (putOt h a str)"
  by (simp add: sameRefs_def putOt_def)

lemma sameRefs_childrenOf: "sameRefs h h' \<Longrightarrow> childrenOf h' a = childrenOf h a"
  by (simp add: sameRefs_def childrenOf_def)

lemma sameRefs_isRoot: "sameRefs h h' \<Longrightarrow> isRoot h' a = isRoot h a"
  by (simp add: sameRefs_def isRoot_def)

lemma sameRefs_getChild:
  assumes "sameRefs h h'"
  shows "getChild h' a c = getChild h a c"
proof -
  from assms have "root (structs h' ! a) = root (structs h ! a)"
    by (simp add: sameRefs_def)
  with sameRefs_childrenOf[OF assms] show ?thesis
    by (simp add: getChild_def split: option.splits)
qed

lemma sameRefs_walk: "sameRefs h h' \<Longrightarrow> walk h' a cs = walk h a cs"
  by (induction cs arbitrary: a) (simp_all add: sameRefs_childrenOf split: option.splits)

text \<open>The maps of a node after each step.\<close>

lemma ilpsOf_setLps: "ilpsOf (setLps h a x) b = ilpsOf h b"
  by (simp add: ilpsOf_def setLps_def upd_lps_fields)

lemma ilpsOf_setIsWord: "ilpsOf (setIsWord h a w) b = ilpsOf h b"
  by (simp add: ilpsOf_def setIsWord_def upd_isWord_fields)

lemma ilpsOf_putOt: "ilpsOf (putOt h a str) b = ilpsOf h b"
  by (simp add: ilpsOf_def putOt_def)

lemma ilpsOf_putIlps:
  "ilps (structs h ! a) < length (intMaps h) \<Longrightarrow>
   ilpsOf (putIlps h a k x) b =
     (if ilps (structs h ! b) = ilps (structs h ! a)
      then AList.update k x (ilpsOf h a) else ilpsOf h b)"
  by (simp add: ilpsOf_def putIlps_def)

lemma ilpsOf_deleteIlps:
  "ilps (structs h ! a) < length (intMaps h) \<Longrightarrow>
   ilpsOf (deleteIlps h a k) b =
     (if ilps (structs h ! b) = ilps (structs h ! a)
      then AList.delete k (ilpsOf h a) else ilpsOf h b)"
  by (simp add: ilpsOf_def deleteIlps_def)

lemma set_update_int: "set (AList.update k x al) \<subseteq> insert (k, x) (set al)"
proof (induction al)
  case Nil
  show ?case by simp
next
  case (Cons p al)
  then show ?case by (cases "fst p = k") auto
qed

lemma set_delete_int: "set (AList.delete k al) \<subseteq> set al"
  by (auto simp: AList.delete_eq)

lemma set_ilpsOf_putIlps:
  "set (ilpsOf (putIlps h a k x) b) \<subseteq> insert (k, x) (set (ilpsOf h b))"
proof (cases "ilps (structs h ! a) < length (intMaps h)")
  case True
  have "ilps (structs h ! b) = ilps (structs h ! a) \<Longrightarrow> ilpsOf h b = ilpsOf h a"
    by (simp add: ilpsOf_def)
  with True set_update_int[of k x "ilpsOf h a"] show ?thesis
    by (auto simp: ilpsOf_putIlps split: if_splits)
next
  case False
  then show ?thesis by (auto simp: ilpsOf_def putIlps_def list_update_beyond not_less)
qed

lemma set_ilpsOf_deleteIlps:
  "set (ilpsOf (deleteIlps h a k) b) \<subseteq> set (ilpsOf h b)"
proof (cases "ilps (structs h ! a) < length (intMaps h)")
  case True
  have "ilps (structs h ! b) = ilps (structs h ! a) \<Longrightarrow> ilpsOf h b = ilpsOf h a"
    by (simp add: ilpsOf_def)
  with True set_delete_int[of k "ilpsOf h a"] show ?thesis
    by (auto simp: ilpsOf_deleteIlps split: if_splits)
next
  case False
  then show ?thesis by (simp add: ilpsOf_def deleteIlps_def list_update_beyond not_less)
qed

text \<open>Every step keeps the store allocated.\<close>

lemma in_set_updD: "s \<in> set (xs[a := v]) \<Longrightarrow> s \<in> set xs \<or> (a < length xs \<and> s = v)"
  using set_update_subset_insert[of xs a v]
  by (cases "a < length xs") (auto simp: list_update_beyond not_less)

lemma storeOk_structs_upd:
  assumes ok: "storeOk h"
    and v: "a < length (structs h) \<Longrightarrow>
      root v < length (structs h) \<and> children v < length (runeMaps h) \<and>
      ilps v < length (intMaps h) \<and> ot v < length (strSets h) \<and>
      (\<forall>m. lps v = Some m \<longrightarrow> m < length (structs h)) \<and> id_st v \<le> id_var h"
  shows "storeOk (h\<lparr>structs := (structs h)[a := v]\<rparr>)"
proof -
  have "root s < length (structs h) \<and> children s < length (runeMaps h) \<and>
      ilps s < length (intMaps h) \<and> ot s < length (strSets h) \<and>
      (\<forall>m. lps s = Some m \<longrightarrow> m < length (structs h)) \<and> id_st s \<le> id_var h"
    if "s \<in> set ((structs h)[a := v])" for s
    using in_set_updD[OF that] ok v unfolding storeOk_def by blast
  with ok show ?thesis
    unfolding storeOk_def by simp
qed

lemma storeOk_intMaps_upd:
  assumes ok: "storeOk h"
    and al: "m < length (intMaps h) \<Longrightarrow> \<forall>e\<in>set al. snd e < length (structs h)"
  shows "storeOk (h\<lparr>intMaps := (intMaps h)[m := al]\<rparr>)"
proof -
  have "\<forall>e\<in>set al'. snd e < length (structs h)"
    if "al' \<in> set ((intMaps h)[m := al])" for al'
    using in_set_updD[OF that] ok al unfolding storeOk_def by blast
  with ok show ?thesis
    unfolding storeOk_def by simp
qed

lemma storeOk_runeMaps_upd:
  assumes ok: "storeOk h"
    and al: "m < length (runeMaps h) \<Longrightarrow> \<forall>e\<in>set al. snd e < length (structs h)"
  shows "storeOk (h\<lparr>runeMaps := (runeMaps h)[m := al]\<rparr>)"
proof -
  have "\<forall>e\<in>set al'. snd e < length (structs h)"
    if "al' \<in> set ((runeMaps h)[m := al])" for al'
    using in_set_updD[OF that] ok al unfolding storeOk_def by blast
  with ok show ?thesis
    unfolding storeOk_def by simp
qed

lemma storeOk_struct:
  "storeOk h \<Longrightarrow> a < length (structs h) \<Longrightarrow>
     root (structs h ! a) < length (structs h) \<and> children (structs h ! a) < length (runeMaps h) \<and>
     ilps (structs h ! a) < length (intMaps h) \<and> ot (structs h ! a) < length (strSets h) \<and>
     (\<forall>m. lps (structs h ! a) = Some m \<longrightarrow> m < length (structs h)) \<and>
     id_st (structs h ! a) \<le> id_var h"
  unfolding storeOk_def using nth_mem[of a "structs h"] by blast

lemma storeOk_setLps:
  "storeOk h \<Longrightarrow> (\<forall>m. x = Some m \<longrightarrow> m < length (structs h)) \<Longrightarrow> storeOk (setLps h a x)"
  unfolding setLps_def
  by (rule storeOk_structs_upd, assumption) (use storeOk_struct[of h a] in simp)

lemma storeOk_setIsWord: "storeOk h \<Longrightarrow> storeOk (setIsWord h a w)"
  unfolding setIsWord_def
  by (rule storeOk_structs_upd, assumption) (use storeOk_struct[of h a] in simp)

lemma storeOk_putOt: "storeOk h \<Longrightarrow> storeOk (putOt h a str)"
  unfolding storeOk_def putOt_def
  by simp

lemma storeOk_putIlps:
  assumes "storeOk h" "x < length (structs h)"
  shows "storeOk (putIlps h a k x)"
  unfolding putIlps_def
proof (rule storeOk_intMaps_upd[OF assms(1)])
  assume "ilps (structs h ! a) < length (intMaps h)"
  then have "ilpsOf h a \<in> set (intMaps h)" by (simp add: ilpsOf_def)
  with assms(1) have "\<forall>e\<in>set (ilpsOf h a). snd e < length (structs h)"
    unfolding storeOk_def by blast
  with assms(2) set_update_int[of k x "ilpsOf h a"]
  show "\<forall>e\<in>set (AList.update k x (ilpsOf h a)). snd e < length (structs h)"
    by auto
qed

lemma storeOk_deleteIlps:
  assumes "storeOk h"
  shows "storeOk (deleteIlps h a k)"
  unfolding deleteIlps_def
proof (rule storeOk_intMaps_upd[OF assms(1)])
  assume "ilps (structs h ! a) < length (intMaps h)"
  then have "ilpsOf h a \<in> set (intMaps h)" by (simp add: ilpsOf_def)
  with assms(1) have "\<forall>e\<in>set (ilpsOf h a). snd e < length (structs h)"
    unfolding storeOk_def by blast
  with set_delete_int[of k "ilpsOf h a"]
  show "\<forall>e\<in>set (AList.delete k (ilpsOf h a)). snd e < length (structs h)"
    by auto
qed

lemma storeOk_putChild:
  assumes "storeOk h" "k < length (structs h)"
  shows "storeOk (putChild h s c k)"
  unfolding putChild_def
proof (rule storeOk_runeMaps_upd[OF assms(1)])
  assume "children (structs h ! s) < length (runeMaps h)"
  then have "childrenOf h s \<in> set (runeMaps h)" by (simp add: childrenOf_def)
  with assms(1) have "\<forall>e\<in>set (childrenOf h s). snd e < length (structs h)"
    unfolding storeOk_def by blast
  with assms(2) set_update_int[of c k "childrenOf h s"]
  show "\<forall>e\<in>set (AList.update c k (childrenOf h s)). snd e < length (structs h)"
    by auto
qed

lemma storeOk_newNode:
  assumes "storeOk h" "r \<le> length (structs h)"
  shows "storeOk (newNode h r c)"
proof -
  have "root s < Suc (length (structs h)) \<and> children s < Suc (length (runeMaps h)) \<and>
      ilps s < Suc (length (intMaps h)) \<and> ot s < Suc (length (strSets h)) \<and>
      (\<forall>m. lps s = Some m \<longrightarrow> m < Suc (length (structs h))) \<and> id_st s \<le> id_var h + 1"
    if "s \<in> set (structs h)" for s
    using assms(1) that unfolding storeOk_def by fastforce
  moreover have "\<forall>e\<in>set al. snd e < Suc (length (structs h))"
    if "al \<in> set (runeMaps h)" for al
    using assms(1) that unfolding storeOk_def by fastforce
  moreover have "\<forall>e\<in>set al. snd e < Suc (length (structs h))"
    if "al \<in> set (intMaps h)" for al
    using assms(1) that unfolding storeOk_def by fastforce
  ultimately show ?thesis
    using assms(2) unfolding storeOk_def newNode_def by auto
qed

lemma storeOk_copy:
  assumes "storeOk h" "a < length (structs h)"
  shows "storeOk (h\<lparr>structs := structs h @ [structs h ! a]\<rparr>)"
proof -
  have "root s < Suc (length (structs h)) \<and> children s < length (runeMaps h) \<and>
      ilps s < length (intMaps h) \<and> ot s < length (strSets h) \<and>
      (\<forall>m. lps s = Some m \<longrightarrow> m < Suc (length (structs h))) \<and> id_st s \<le> id_var h"
    if "s \<in> set (structs h)" for s
    using assms(1) that unfolding storeOk_def by fastforce
  moreover have "structs h ! a \<in> set (structs h)" using assms(2) by simp
  moreover have "\<forall>e\<in>set al. snd e < Suc (length (structs h))"
    if "al \<in> set (runeMaps h)" for al
    using assms(1) that unfolding storeOk_def by fastforce
  moreover have "\<forall>e\<in>set al. snd e < Suc (length (structs h))"
    if "al \<in> set (intMaps h)" for al
    using assms(1) that unfolding storeOk_def by fastforce
  ultimately show ?thesis
    unfolding storeOk_def by auto
qed

lemma storeOk_valid:
  assumes "storeOk h" "a < length (structs h)"
  shows "root (structs h ! a) < length (structs h)"
    and "children (structs h ! a) < length (runeMaps h)"
    and "ilps (structs h ! a) < length (intMaps h)"
    and "ot (structs h ! a) < length (strSets h)"
    and "lps (structs h ! a) = Some m \<Longrightarrow> m < length (structs h)"
    and "id_st (structs h ! a) \<le> id_var h"
    and "e \<in> set (childrenOf h a) \<Longrightarrow> snd e < length (structs h)"
    and "e' \<in> set (ilpsOf h a) \<Longrightarrow> snd e' < length (structs h)"
    and "failureFn h a < length (structs h)"
    and "getChild h a c < length (structs h)"
proof -
  from assms have s: "structs h ! a \<in> set (structs h)" by simp
  with assms(1) show r: "root (structs h ! a) < length (structs h)"
    and c: "children (structs h ! a) < length (runeMaps h)"
    and i: "ilps (structs h ! a) < length (intMaps h)"
    and "ot (structs h ! a) < length (strSets h)"
    and "id_st (structs h ! a) \<le> id_var h"
    unfolding storeOk_def by blast+
  from s assms(1) show l: "lps (structs h ! a) = Some m \<Longrightarrow> m < length (structs h)" for m
    unfolding storeOk_def by blast
  from c have "childrenOf h a \<in> set (runeMaps h)" by (simp add: childrenOf_def)
  with assms(1) show ch: "e \<in> set (childrenOf h a) \<Longrightarrow> snd e < length (structs h)" for e
    unfolding storeOk_def by blast
  from i have "ilpsOf h a \<in> set (intMaps h)" by (simp add: ilpsOf_def)
  with assms(1) show "e' \<in> set (ilpsOf h a) \<Longrightarrow> snd e' < length (structs h)"
    unfolding storeOk_def by blast
  from r l show "failureFn h a < length (structs h)"
    by (auto simp: failureFn_def split: option.splits)
  from r ch show "getChild h a c < length (structs h)"
    by (auto simp: getChild_def split: option.splits dest!: map_of_SomeD)
qed

lemmas failureTarget_induct = failureTarget.raw_induct[rotated 1, consumes 1, case_names step]
lemmas completeInverseLoop_induct =
  completeInverseLoop.raw_induct[rotated 1, consumes 1, case_names step]
lemmas buildFailureLoop_induct =
  buildFailureLoop.raw_induct[rotated 1, consumes 1, case_names step]

lemma onlyOt_refl: "onlyOt h h"
  by (simp add: onlyOt_def)

lemma onlyOt_trans: "onlyOt h h1 \<Longrightarrow> onlyOt h1 h2 \<Longrightarrow> onlyOt h h2"
  by (simp add: onlyOt_def)

lemma onlyOt_putOt: "onlyOt h (putOt h a str)"
  by (simp add: onlyOt_def putOt_def)

lemma onlyOt_fold_putOt: "onlyOt h (fold (\<lambda>k h'. putOt h' a k) ks h)"
proof (induction ks arbitrary: h)
  case Nil
  show ?case by (simp add: onlyOt_refl)
next
  case (Cons k ks)
  from onlyOt_trans[OF onlyOt_putOt Cons] show ?case by simp
qed

lemma onlyOt_sameRefs: "onlyOt h h' \<Longrightarrow> sameRefs h h'"
  by (simp add: onlyOt_def sameRefs_def)

lemma onlyOt_storeOk: "onlyOt h h' \<Longrightarrow> storeOk h \<Longrightarrow> storeOk h'"
  by (simp add: onlyOt_def storeOk_def)

lemma onlyOt_ilpsOf: "onlyOt h h' \<Longrightarrow> ilpsOf h' a = ilpsOf h a"
  by (simp add: onlyOt_def ilpsOf_def)

lemma onlyOt_childrenOf: "onlyOt h h' \<Longrightarrow> childrenOf h' a = childrenOf h a"
  by (simp add: onlyOt_def childrenOf_def)

lemma enterOutputs_onlyOt: "enterOutputs h xs str = Some h' \<Longrightarrow> onlyOt h h'"
proof (induction rule: enterOutputs_induct)
  case (step f h xs str h')
  show ?case
  proof (cases xs)
    case Nil
    with step(2) show ?thesis by (simp add: onlyOt_refl)
  next
    case (Cons s rest)
    with step(2) obtain h1 where
      a: "f (putOt h s str) (map snd (ilpsOf h s)) str = Some h1"
      and b: "f h1 rest str = Some h'"
      by (auto simp: bind_eq_Some_conv)
    from onlyOt_trans[OF onlyOt_putOt step(1)[OF a]] step(1)[OF b]
    show ?thesis by (rule onlyOt_trans)
  qed
qed

lemma failureTarget_valid:
  "failureTarget h m c = Some mp \<Longrightarrow> storeOk h \<Longrightarrow> m < length (structs h) \<Longrightarrow>
   mp < length (structs h)"
proof (induction rule: failureTarget_induct)
  case (step f h m c mp)
  have v: "failureFn h m < length (structs h)"
    using step.prems by (rule storeOk_valid)
  show ?case
  proof (cases "isRoot h (failureFn h m) \<or> \<not> isRoot h (getChild h (failureFn h m) c)")
    case True
    with step(2) have "mp = getChild h (failureFn h m) c" by simp
    with storeOk_valid(10)[OF step.prems(1) v] show ?thesis by simp
  next
    case False
    with step(2) have "f h (failureFn h m) c = Some mp" by simp
    from step(1)[OF this step.prems(1) v] show ?thesis .
  qed
qed

lemma completeFailureFn_store:
  assumes "completeFailureFn h s c = Some h'" "storeOk h" "s < length (structs h)"
  shows "storeOk h' \<and> sameRefs h h' \<and> intMaps h' = intMaps h"
proof (cases "isRoot h s")
  case True
  with assms show ?thesis by (simp add: completeFailureFn_def sameRefs_refl)
next
  case False
  with assms(1) obtain mp where
    mp: "failureTarget h s c = Some mp" and
    h': "h' = fold (\<lambda>k h'. putOt h' (getChild h s c) k) (otOf h mp)
                (setLps h (getChild h s c) (Some mp))"
    by (auto simp: completeFailureFn_def split: option.splits)
  let ?h1 = "setLps h (getChild h s c) (Some mp)"
  from failureTarget_valid[OF mp assms(2,3)] have "storeOk ?h1"
    by (intro storeOk_setLps assms(2)) simp
  moreover have o: "onlyOt ?h1 h'" unfolding h' by (rule onlyOt_fold_putOt)
  ultimately have "storeOk h'" by (rule onlyOt_storeOk[rotated])
  moreover from sameRefs_setLps onlyOt_sameRefs[OF o] have "sameRefs h h'"
    by (rule sameRefs_trans)
  moreover from o have "intMaps h' = intMaps h"
    by (simp add: onlyOt_def setLps_def)
  ultimately show ?thesis by blast
qed

lemma completeInverseLoop_store:
  "completeInverseLoop h m ks np c = Some h' \<Longrightarrow> storeOk h \<Longrightarrow> np < length (structs h) \<Longrightarrow>
   m < length (intMaps h) \<Longrightarrow> storeOk h' \<and> sameRefs h h'"
proof (induction rule: completeInverseLoop_induct)
  case (step f h m ks np c h')
  show ?case
  proof (cases ks)
    case Nil
    with step(2) step.prems show ?thesis by (simp add: sameRefs_refl)
  next
    case (Cons k rest)
    show ?thesis
    proof (cases "map_of (intMaps h ! m) k")
      case None
      with Cons step(2) have "f h m rest np c = Some h'" by simp
      from step(1)[OF this step.prems] show ?thesis .
    next
      case (Some x)
      from Some have "(k, x) \<in> set (intMaps h ! m)" by (rule map_of_SomeD)
      moreover from step.prems(3) have "intMaps h ! m \<in> set (intMaps h)" by simp
      ultimately have x: "x < length (structs h)"
        using step.prems(1) unfolding storeOk_def by fastforce
      show ?thesis
      proof (cases "map_of (childrenOf h x) c")
        case None
        with Cons Some step(2) obtain h1 where
          a: "f h (ilps (structs h ! x)) (map fst (ilpsOf h x)) np c = Some h1"
          and b: "f h1 m rest np c = Some h'"
          by (auto simp: bind_eq_Some_conv)
        from step(1)[OF a step.prems(1,2) storeOk_valid(3)[OF step.prems(1) x]]
        have 1: "storeOk h1" "sameRefs h h1" by simp_all
        from 1(2) step.prems(2,3) have "np < length (structs h1)" "m < length (intMaps h1)"
          by (simp_all add: sameRefs_def)
        from step(1)[OF b 1(1) this] 1(2) show ?thesis
          by (blast intro: sameRefs_trans)
      next
        case (Some xp)
        let ?h1 = "deleteIlps h (failureFn h xp) (id_st (structs h ! xp))"
        let ?h2 = "setLps ?h1 xp (Some np)"
        let ?h3 = "putIlps ?h2 np (id_st (structs h ! xp)) xp"
        from Some have "(c, xp) \<in> set (childrenOf h x)" by (rule map_of_SomeD)
        from storeOk_valid(7)[OF step.prems(1) x this]
        have xp: "xp < length (structs h)" by simp
        from Cons \<open>map_of (intMaps h ! m) k = Some x\<close> Some step(2)
        have r: "f ?h3 m rest np c = Some h'" by simp
        have s1: "sameRefs h ?h1" by (rule sameRefs_deleteIlps)
        have s2: "sameRefs ?h1 ?h2" by (rule sameRefs_setLps)
        have s3: "sameRefs ?h2 ?h3" by (rule sameRefs_putIlps)
        have s: "sameRefs h ?h3"
          using s1 s2 s3 by (blast intro: sameRefs_trans)
        have o1: "storeOk ?h1" using step.prems(1) by (rule storeOk_deleteIlps)
        have o2: "storeOk ?h2"
          using o1 step.prems(2) s1 by (intro storeOk_setLps) (simp_all add: sameRefs_def)
        have o3: "storeOk ?h3"
          using o2 xp s1 s2 by (intro storeOk_putIlps) (simp_all add: sameRefs_def)
        from s step.prems(2,3) have "np < length (structs ?h3)" "m < length (intMaps ?h3)"
          by (simp_all add: sameRefs_def)
        from step(1)[OF r o3 this] s show ?thesis
          by (blast intro: sameRefs_trans)
      qed
    qed
  qed
qed

section \<open>The invariant of insertion\<close>

lemma trieD:
  assumes "trie h p T d"
  shows "p \<in> T" "d p = 0"
    and "a \<in> T \<Longrightarrow> a < length (structs h)"
    and "a \<in> T \<Longrightarrow> root (structs h ! a) = p"
    and "a \<in> T \<Longrightarrow> b \<in> T \<Longrightarrow> children (structs h ! a) = children (structs h ! b) \<Longrightarrow> a = b"
    and "a \<in> T \<Longrightarrow> b \<in> T \<Longrightarrow> ilps (structs h ! a) = ilps (structs h ! b) \<Longrightarrow> a = b"
    and "a \<in> T \<Longrightarrow> e \<in> set (childrenOf h a) \<Longrightarrow> snd e \<in> T \<and> d (snd e) = Suc (d a)"
    and "a \<in> T \<Longrightarrow> lps (structs h ! a) = Some m \<Longrightarrow> m \<in> T \<and> d m < d a"
    and "a \<in> T \<Longrightarrow> e' \<in> set (ilpsOf h a) \<Longrightarrow> snd e' \<in> T \<and> d a < d (snd e')"
    and "a \<in> T \<Longrightarrow> \<exists>cs. walk h p cs = Some a \<and> length cs = d a"
  using assms unfolding trie_def by blast+

lemma trie_child:
  assumes "trie h p T d" "a \<in> T" "map_of (childrenOf h a) c = Some b"
  shows "b \<in> T" "d b = Suc (d a)"
  using trieD(7)[OF assms(1,2) map_of_SomeD[OF assms(3)]] by simp_all

lemma trie_isRoot: "trie h p T d \<Longrightarrow> a \<in> T \<Longrightarrow> isRoot h a \<longleftrightarrow> a = p"
  by (auto simp: isRoot_def trieD(4))

lemma trie_depth_pos:
  assumes "trie h p T d" "a \<in> T" "a \<noteq> p"
  shows "0 < d a"
proof (rule ccontr)
  assume "\<not> 0 < d a"
  with trieD(10)[OF assms(1,2)] have "walk h p [] = Some a" by auto
  with assms(3) show False by simp
qed

lemma trie_getChild:
  assumes "trie h p T d" "a \<in> T"
  shows "getChild h a c \<in> T" "d (getChild h a c) \<le> Suc (d a)"
proof -
  show "getChild h a c \<in> T"
    using trie_child(1)[OF assms] trieD(1,4)[OF assms(1)] assms(2)
    by (simp add: getChild_def split: option.splits)
  show "d (getChild h a c) \<le> Suc (d a)"
    using trie_child(2)[OF assms] trieD(2,4)[OF assms(1)] assms(2)
    by (simp add: getChild_def split: option.splits)
qed

lemma trie_failureFn:
  assumes "trie h p T d" "a \<in> T"
  shows "failureFn h a \<in> T" "d (failureFn h a) \<le> d a" "a \<noteq> p \<Longrightarrow> d (failureFn h a) < d a"
proof -
  show "failureFn h a \<in> T"
    using trieD(8)[OF assms] trieD(1,4)[OF assms(1)] assms(2)
    by (simp add: failureFn_def split: option.splits)
  show "d (failureFn h a) \<le> d a"
    using trieD(8)[OF assms] trieD(2,4)[OF assms(1)] assms(2)
    by (auto simp: failureFn_def split: option.splits)
  show "d (failureFn h a) < d a" if "a \<noteq> p"
    using trieD(8)[OF assms] trieD(2,4)[OF assms(1)] assms(2)
      trie_depth_pos[OF assms that]
    by (auto simp: failureFn_def split: option.splits)
qed

lemma walk_in_trie:
  "trie h p T d \<Longrightarrow> a \<in> T \<Longrightarrow> walk h a cs = Some b \<Longrightarrow> b \<in> T \<and> d b = d a + length cs"
proof (induction cs arbitrary: a)
  case Nil
  then show ?case by simp
next
  case (Cons c cs)
  from Cons.prems(3) obtain a2 where
    a2: "map_of (childrenOf h a) c = Some a2" and w: "walk h a2 cs = Some b"
    by (auto split: option.splits)
  from trie_child[OF Cons.prems(1,2) a2] Cons.IH[OF Cons.prems(1) _ w]
  show ?case by simp
qed

lemma walk_same:
  assumes "trie h p T d" "\<forall>a\<in>T. childrenOf h' a = childrenOf h a"
  shows "a \<in> T \<Longrightarrow> walk h a cs = Some b \<Longrightarrow> walk h' a cs = Some b"
proof (induction cs arbitrary: a)
  case Nil
  then show ?case by simp
next
  case (Cons c cs)
  from Cons.prems(2) obtain a2 where
    a2: "map_of (childrenOf h a) c = Some a2" and w: "walk h a2 cs = Some b"
    by (auto split: option.splits)
  from trie_child(1)[OF assms(1) Cons.prems(1) a2] have "a2 \<in> T" .
  from Cons.IH[OF this w] a2 assms(2) Cons.prems(1) show ?case by simp
qed

text \<open>
  The invariant speaks of the structs of \<open>T\<close>, their children maps and their \<open>ilps\<close>
  maps only.
\<close>

lemma trie_frame:
  assumes t: "trie h p T d"
    and len: "length (structs h) \<le> length (structs h')"
    and refs: "\<forall>a\<in>T. root (structs h' ! a) = root (structs h ! a) \<and>
                    children (structs h' ! a) = children (structs h ! a) \<and>
                    ilps (structs h' ! a) = ilps (structs h ! a)"
    and ch: "\<forall>a\<in>T. childrenOf h' a = childrenOf h a"
    and lp: "\<forall>a\<in>T. \<forall>m. lps (structs h' ! a) = Some m \<longrightarrow> m \<in> T \<and> d m < d a"
    and il: "\<forall>a\<in>T. \<forall>e\<in>set (ilpsOf h' a). snd e \<in> T \<and> d a < d (snd e)"
  shows "trie h' p T d"
  unfolding trie_def
proof (intro conjI ballI)
  show "p \<in> T" "d p = 0" using trieD(1,2)[OF t] .
next
  fix a assume "a \<in> T"
  with trieD(3)[OF t this] len show "a < length (structs h')" by simp
  from \<open>a \<in> T\<close> refs trieD(4)[OF t] show "root (structs h' ! a) = p" by simp
  from \<open>a \<in> T\<close> lp show "\<forall>m. lps (structs h' ! a) = Some m \<longrightarrow> m \<in> T \<and> d m < d a"
    by blast
  from trieD(10)[OF t \<open>a \<in> T\<close>] obtain cs where "walk h p cs = Some a" "length cs = d a"
    by blast
  with walk_same[OF t ch trieD(1)[OF t]] show "\<exists>cs. walk h' p cs = Some a \<and> length cs = d a"
    by blast
next
  fix a b assume "a \<in> T" "b \<in> T"
  with refs trieD(5,6)[OF t]
  show "children (structs h' ! a) = children (structs h' ! b) \<or>
        ilps (structs h' ! a) = ilps (structs h' ! b) \<longrightarrow> a = b"
    by auto
next
  fix a e assume "a \<in> T" "e \<in> set (childrenOf h' a)"
  with ch trieD(7)[OF t] show "snd e \<in> T" "d (snd e) = Suc (d a)" by auto
next
  fix a e assume "a \<in> T" "e \<in> set (ilpsOf h' a)"
  with il show "snd e \<in> T" "d a < d (snd e)" by auto
qed

lemma trie_setLps:
  assumes "trie h p T d" "a \<in> T \<Longrightarrow> m \<in> T \<and> d m < d a"
  shows "trie (setLps h a (Some m)) p T d"
proof (rule trie_frame[OF assms(1)])
  show "length (structs h) \<le> length (structs (setLps h a (Some m)))"
    by (simp add: setLps_def)
  show "\<forall>b\<in>T. root (structs (setLps h a (Some m)) ! b) = root (structs h ! b) \<and>
       children (structs (setLps h a (Some m)) ! b) = children (structs h ! b) \<and>
       ilps (structs (setLps h a (Some m)) ! b) = ilps (structs h ! b)"
    by (simp add: setLps_def upd_lps_fields)
  show "\<forall>b\<in>T. childrenOf (setLps h a (Some m)) b = childrenOf h b"
    by (simp add: sameRefs_childrenOf[OF sameRefs_setLps])
  show "\<forall>b\<in>T. \<forall>m'. lps (structs (setLps h a (Some m)) ! b) = Some m' \<longrightarrow> m' \<in> T \<and> d m' < d b"
    using assms(2) trieD(8)[OF assms(1)] by (auto simp: lps_setLps split: if_splits)
  show "\<forall>b\<in>T. \<forall>e\<in>set (ilpsOf (setLps h a (Some m)) b). snd e \<in> T \<and> d b < d (snd e)"
    using trieD(9)[OF assms(1)] by (simp add: ilpsOf_setLps)
qed

lemma trie_setIsWord:
  assumes "trie h p T d"
  shows "trie (setIsWord h a w) p T d"
proof (rule trie_frame[OF assms(1)])
  show "length (structs h) \<le> length (structs (setIsWord h a w))"
    by (simp add: setIsWord_def)
  show "\<forall>b\<in>T. root (structs (setIsWord h a w) ! b) = root (structs h ! b) \<and>
       children (structs (setIsWord h a w) ! b) = children (structs h ! b) \<and>
       ilps (structs (setIsWord h a w) ! b) = ilps (structs h ! b)"
    by (simp add: setIsWord_def upd_isWord_fields)
  show "\<forall>b\<in>T. childrenOf (setIsWord h a w) b = childrenOf h b"
    by (simp add: sameRefs_childrenOf[OF sameRefs_setIsWord])
  show "\<forall>b\<in>T. \<forall>m'. lps (structs (setIsWord h a w) ! b) = Some m' \<longrightarrow> m' \<in> T \<and> d m' < d b"
    using trieD(8)[OF assms(1)] by (simp add: setIsWord_def upd_isWord_fields)
  show "\<forall>b\<in>T. \<forall>e\<in>set (ilpsOf (setIsWord h a w) b). snd e \<in> T \<and> d b < d (snd e)"
    using trieD(9)[OF assms(1)] by (simp add: ilpsOf_setIsWord)
qed

lemma trie_onlyOt:
  assumes "trie h p T d" "onlyOt h h'"
  shows "trie h' p T d"
proof (rule trie_frame[OF assms(1)])
  from assms(2) have s: "structs h' = structs h" by (simp add: onlyOt_def)
  show "length (structs h) \<le> length (structs h')" by (simp add: s)
  show "\<forall>b\<in>T. root (structs h' ! b) = root (structs h ! b) \<and>
       children (structs h' ! b) = children (structs h ! b) \<and>
       ilps (structs h' ! b) = ilps (structs h ! b)"
    by (simp add: s)
  show "\<forall>b\<in>T. childrenOf h' b = childrenOf h b"
    by (simp add: onlyOt_childrenOf[OF assms(2)])
  show "\<forall>b\<in>T. \<forall>m'. lps (structs h' ! b) = Some m' \<longrightarrow> m' \<in> T \<and> d m' < d b"
    using trieD(8)[OF assms(1)] by (simp add: s)
  show "\<forall>b\<in>T. \<forall>e\<in>set (ilpsOf h' b). snd e \<in> T \<and> d b < d (snd e)"
    using trieD(9)[OF assms(1)] by (simp add: onlyOt_ilpsOf[OF assms(2)])
qed

lemma trie_deleteIlps:
  assumes "trie h p T d"
  shows "trie (deleteIlps h a k) p T d"
proof (rule trie_frame[OF assms(1)])
  show "length (structs h) \<le> length (structs (deleteIlps h a k))"
    by (simp add: deleteIlps_def)
  show "\<forall>b\<in>T. root (structs (deleteIlps h a k) ! b) = root (structs h ! b) \<and>
       children (structs (deleteIlps h a k) ! b) = children (structs h ! b) \<and>
       ilps (structs (deleteIlps h a k) ! b) = ilps (structs h ! b)"
    by (simp add: deleteIlps_def)
  show "\<forall>b\<in>T. childrenOf (deleteIlps h a k) b = childrenOf h b"
    by (simp add: sameRefs_childrenOf[OF sameRefs_deleteIlps])
  show "\<forall>b\<in>T. \<forall>m'. lps (structs (deleteIlps h a k) ! b) = Some m' \<longrightarrow> m' \<in> T \<and> d m' < d b"
    using trieD(8)[OF assms(1)] by (simp add: deleteIlps_def)
  show "\<forall>b\<in>T. \<forall>e\<in>set (ilpsOf (deleteIlps h a k) b). snd e \<in> T \<and> d b < d (snd e)"
    using trieD(9)[OF assms(1)] set_ilpsOf_deleteIlps[of h a k] by blast
qed

lemma trie_putIlps:
  assumes "trie h p T d" "storeOk h" "a \<in> T" "x \<in> T" "d a < d x"
  shows "trie (putIlps h a k x) p T d"
proof (rule trie_frame[OF assms(1)])
  show "length (structs h) \<le> length (structs (putIlps h a k x))"
    by (simp add: putIlps_def)
  show "\<forall>b\<in>T. root (structs (putIlps h a k x) ! b) = root (structs h ! b) \<and>
       children (structs (putIlps h a k x) ! b) = children (structs h ! b) \<and>
       ilps (structs (putIlps h a k x) ! b) = ilps (structs h ! b)"
    by (simp add: putIlps_def)
  show "\<forall>b\<in>T. childrenOf (putIlps h a k x) b = childrenOf h b"
    by (simp add: sameRefs_childrenOf[OF sameRefs_putIlps])
  show "\<forall>b\<in>T. \<forall>m'. lps (structs (putIlps h a k x) ! b) = Some m' \<longrightarrow> m' \<in> T \<and> d m' < d b"
    using trieD(8)[OF assms(1)] by (simp add: putIlps_def)
  show "\<forall>b\<in>T. \<forall>e\<in>set (ilpsOf (putIlps h a k x) b). snd e \<in> T \<and> d b < d (snd e)"
  proof (intro ballI)
    fix b e assume b: "b \<in> T" and e: "e \<in> set (ilpsOf (putIlps h a k x) b)"
    have v: "ilps (structs h ! a) < length (intMaps h)"
      using storeOk_valid(3)[OF assms(2) trieD(3)[OF assms(1,3)]] .
    show "snd e \<in> T \<and> d b < d (snd e)"
    proof (cases "b = a")
      case True
      from e True set_ilpsOf_putIlps[of h a k x a]
      have "e \<in> insert (k, x) (set (ilpsOf h a))" by blast
      then consider "e = (k, x)" | "e \<in> set (ilpsOf h a)" by blast
      then show ?thesis
      proof cases
        case 1
        with assms(4,5) True show ?thesis by simp
      next
        case 2
        from trieD(9)[OF assms(1,3) 2] True show ?thesis by simp
      qed
    next
      case False
      with trieD(6)[OF assms(1) b assms(3)]
      have "ilps (structs h ! b) \<noteq> ilps (structs h ! a)" by blast
      with e have "e \<in> set (ilpsOf h b)" by (simp add: ilpsOf_putIlps[OF v])
      from trieD(9)[OF assms(1) b this] show ?thesis .
    qed
  qed
qed

text \<open>The loop of \<open>completeFailureFn\<close> ends at a node no deeper than where it began.\<close>

lemma failureTarget_trie:
  "failureTarget h m c = Some mp \<Longrightarrow> trie h p T d \<Longrightarrow> m \<in> T \<Longrightarrow>
   mp \<in> T \<and> d mp \<le> Suc (d (failureFn h m))"
proof (induction rule: failureTarget_induct)
  case (step f h m c mp)
  note f = trie_failureFn[OF step.prems]
  show ?case
  proof (cases "isRoot h (failureFn h m) \<or> \<not> isRoot h (getChild h (failureFn h m) c)")
    case True
    with step(2) have "mp = getChild h (failureFn h m) c" by simp
    with trie_getChild[OF step.prems(1) f(1)] show ?thesis by simp
  next
    case False
    with step(2) have "f h (failureFn h m) c = Some mp" by simp
    from step(1)[OF this step.prems(1) f(1)]
      trie_failureFn(2)[OF step.prems(1) f(1)]
    show ?thesis by simp
  qed
qed

lemma completeFailureFn_trie:
  assumes "completeFailureFn h s c = Some h'" "trie h p T d" "s \<in> T"
    "map_of (childrenOf h s) c = Some np"
  shows "trie h' p T d"
proof (cases "isRoot h s")
  case True
  with assms show ?thesis by (simp add: completeFailureFn_def)
next
  case False
  with trie_isRoot[OF assms(2,3)] have sp: "s \<noteq> p" by simp
  from assms(4) have g: "getChild h s c = np" by (simp add: getChild_def)
  from False assms(1) g obtain mp where
    mp: "failureTarget h s c = Some mp" and
    h': "h' = fold (\<lambda>k h'. putOt h' np k) (otOf h mp) (setLps h np (Some mp))"
    by (auto simp: completeFailureFn_def split: option.splits)
  from failureTarget_trie[OF mp assms(2,3)] trie_failureFn(3)[OF assms(2,3) sp]
  have "mp \<in> T" "d mp \<le> d s" by simp_all
  with trie_child[OF assms(2,3,4)] have "mp \<in> T \<and> d mp < d np" by simp
  then have "trie (setLps h np (Some mp)) p T d"
    by (intro trie_setLps[OF assms(2)])
  then show ?thesis
    unfolding h' by (rule trie_onlyOt) (rule onlyOt_fold_putOt)
qed

text \<open>
  The loop of \<open>completeInverseFn\<close> over the \<open>ilps\<close> map of a node \<open>y\<close>, for a new node
  \<open>np\<close> at most one deeper than \<open>y\<close>. Nothing is used of the keys \<open>ks\<close>: the step
  holds for every order in which the map is walked.
\<close>

lemma completeInverseLoop_trie:
  "completeInverseLoop h m ks np c = Some h' \<Longrightarrow> trie h p T d \<Longrightarrow> storeOk h \<Longrightarrow>
   np \<in> T \<Longrightarrow> y \<in> T \<Longrightarrow> m = ilps (structs h ! y) \<Longrightarrow> d np \<le> Suc (d y) \<Longrightarrow>
   trie h' p T d \<and> storeOk h' \<and> sameRefs h h'"
proof (induction arbitrary: y rule: completeInverseLoop_induct)
  case (step f h m ks np c h')
  note t = step.prems(1) and ok = step.prems(2)
  show ?case
  proof (cases ks)
    case Nil
    with step(2) t ok show ?thesis by (simp add: sameRefs_refl)
  next
    case (Cons k rest)
    show ?thesis
    proof (cases "map_of (intMaps h ! m) k")
      case None
      with Cons step(2) have "f h m rest np c = Some h'" by simp
      from step(1)[OF this step.prems] show ?thesis .
    next
      case (Some x)
      then have "(k, x) \<in> set (ilpsOf h y)"
        using step.prems(5) by (auto simp: ilpsOf_def dest: map_of_SomeD)
      from trieD(9)[OF t step.prems(4) this] have x: "x \<in> T" "d y < d x" by simp_all
      have npv: "np < length (structs h)" using trieD(3)[OF t step.prems(3)] .
      show ?thesis
      proof (cases "map_of (childrenOf h x) c")
        case None
        with Cons Some step(2) obtain h1 where
          a: "f h (ilps (structs h ! x)) (map fst (ilpsOf h x)) np c = Some h1"
          and b: "f h1 m rest np c = Some h'"
          by (auto simp: bind_eq_Some_conv)
        from x(2) step.prems(6) have "d np \<le> Suc (d x)" by simp
        from step(1)[OF a t ok step.prems(3) x(1) refl this]
        have 1: "trie h1 p T d" "storeOk h1" "sameRefs h h1" by simp_all
        from 1(3) step.prems(5) have "m = ilps (structs h1 ! y)" by (simp add: sameRefs_def)
        from step(1)[OF b 1(1,2) step.prems(3,4) this step.prems(6)] 1(3) show ?thesis
          by (blast intro: sameRefs_trans)
      next
        case (Some xp)
        let ?h1 = "deleteIlps h (failureFn h xp) (id_st (structs h ! xp))"
        let ?h2 = "setLps ?h1 xp (Some np)"
        let ?h3 = "putIlps ?h2 np (id_st (structs h ! xp)) xp"
        from trie_child[OF t x(1) Some] have xp: "xp \<in> T" "d xp = Suc (d x)" by simp_all
        with x(2) step.prems(6) have lt: "d np < d xp" by simp
        from Cons \<open>map_of (intMaps h ! m) k = Some x\<close> Some step(2)
        have r: "f ?h3 m rest np c = Some h'" by simp
        have t1: "trie ?h1 p T d" using t by (rule trie_deleteIlps)
        have t2: "trie ?h2 p T d"
          by (rule trie_setLps[OF t1]) (use step.prems(3) lt in simp)
        have o2: "storeOk ?h2"
          using storeOk_deleteIlps[OF ok] npv
          by (intro storeOk_setLps) (simp_all add: deleteIlps_def)
        have t3: "trie ?h3 p T d" using t2 o2 step.prems(3) xp(1) lt by (rule trie_putIlps)
        have o3: "storeOk ?h3"
          using o2 trieD(3)[OF t xp(1)]
          by (intro storeOk_putIlps) (simp_all add: setLps_def deleteIlps_def)
        have s: "sameRefs h ?h3"
          using sameRefs_deleteIlps sameRefs_setLps sameRefs_putIlps
          by (blast intro: sameRefs_trans)
        with step.prems(5) have "m = ilps (structs ?h3 ! y)" by (simp add: sameRefs_def)
        from step(1)[OF r t3 o3 step.prems(3,4) this step.prems(6)] s show ?thesis
          by (blast intro: sameRefs_trans)
      qed
    qed
  qed
qed

text \<open>The store after \<open>enterChild\<close> has allocated the child and entered it in the map.\<close>

lemma grows_refl: "grows h h"
  by (simp add: grows_def)

lemma grows_trans:
  assumes "grows h h1" "grows h1 h2"
  shows "grows h h2"
proof -
  have "a < length (structs h1)" if "a < length (structs h)" for a
    using assms(1) that by (simp add: grows_def)
  with assms show ?thesis
    by (simp add: grows_def)
qed

lemma sameRefs_grows: "sameRefs h h' \<Longrightarrow> grows h h'"
  by (simp add: sameRefs_def grows_def)

lemma addChild_eq:
  assumes "children (structs h ! s) < length (runeMaps h)" "s < length (structs h)"
  shows "putChild (newNode h r c) s c k =
     \<lparr>id_var = id_var h + 1,
      structs = structs h @
        [\<lparr>id_st = id_var h + 1, root = r, char = c, isWord = False,
          children = length (runeMaps h), lps = None,
          ilps = length (intMaps h), ot = length (strSets h)\<rparr>],
      runeMaps = (runeMaps h)[children (structs h ! s) := AList.update c k (childrenOf h s)] @ [[]],
      intMaps = intMaps h @ [[]],
      strSets = strSets h @ [[]]\<rparr>"
  using assms
  by (simp add: putChild_def newNode_def childrenOf_def nth_append list_update_append1)

lemma addChild_old:
  fixes r c k
  assumes "storeOk h" "s < length (structs h)" "a < length (structs h)"
  defines "h1 \<equiv> putChild (newNode h r c) s c k"
  shows "structs h1 ! a = structs h ! a"
    and "childrenOf h1 a =
          (if children (structs h ! a) = children (structs h ! s)
           then AList.update c k (childrenOf h s) else childrenOf h a)"
    and "ilpsOf h1 a = ilpsOf h a"
proof -
  note v = storeOk_valid(2,3)[OF assms(1,2)] and va = storeOk_valid(2,3)[OF assms(1,3)]
  note eq = addChild_eq[OF v(1) assms(2), of r c k]
  have st: "structs h1 = structs h @
        [\<lparr>id_st = id_var h + 1, root = r, char = c, isWord = False,
          children = length (runeMaps h), lps = None,
          ilps = length (intMaps h), ot = length (strSets h)\<rparr>]"
    and rm: "runeMaps h1 =
        (runeMaps h)[children (structs h ! s) := AList.update c k (childrenOf h s)] @ [[]]"
    and im: "intMaps h1 = intMaps h @ [[]]"
    unfolding h1_def eq by simp_all
  show 1: "structs h1 ! a = structs h ! a"
    using assms(3) by (simp add: st nth_append)
  have "childrenOf h1 a =
      (runeMaps h)[children (structs h ! s) := AList.update c k (childrenOf h s)]
        ! children (structs h ! a)"
    unfolding childrenOf_def 1 rm using va(1) by (simp add: nth_append)
  also have "\<dots> = (if children (structs h ! a) = children (structs h ! s)
           then AList.update c k (childrenOf h s) else childrenOf h a)"
    using v(1) va(1) by (simp add: nth_list_update childrenOf_def)
  finally show "childrenOf h1 a =
          (if children (structs h ! a) = children (structs h ! s)
           then AList.update c k (childrenOf h s) else childrenOf h a)" .
  show "ilpsOf h1 a = ilpsOf h a"
    unfolding ilpsOf_def 1 im using va(2) by (simp add: nth_append)
qed

lemma addChild_new:
  fixes r c k
  assumes "storeOk h" "s < length (structs h)"
  defines "h1 \<equiv> putChild (newNode h r c) s c k"
  shows "structs h1 ! length (structs h) =
           \<lparr>id_st = id_var h + 1, root = r, char = c, isWord = False,
            children = length (runeMaps h), lps = None,
            ilps = length (intMaps h), ot = length (strSets h)\<rparr>"
    and "childrenOf h1 (length (structs h)) = []"
    and "ilpsOf h1 (length (structs h)) = []"
    and "length (structs h1) = Suc (length (structs h))"
    and "id_var h1 = id_var h + 1"
proof -
  note v = storeOk_valid(2,3)[OF assms(1,2)]
  note eq = addChild_eq[OF v(1) assms(2), of r c k]
  show "structs h1 ! length (structs h) =
           \<lparr>id_st = id_var h + 1, root = r, char = c, isWord = False,
            children = length (runeMaps h), lps = None,
            ilps = length (intMaps h), ot = length (strSets h)\<rparr>"
    by (simp add: h1_def eq)
  show "childrenOf h1 (length (structs h)) = []"
    by (simp add: childrenOf_def h1_def eq nth_append)
  show "ilpsOf h1 (length (structs h)) = []"
    by (simp add: ilpsOf_def h1_def eq)
  show "length (structs h1) = Suc (length (structs h))"
    by (simp add: h1_def eq)
  show "id_var h1 = id_var h + 1"
    by (simp add: h1_def eq)
qed

lemma addChild_storeOk:
  assumes "storeOk h" "s < length (structs h)" "r < length (structs h)"
  shows "storeOk (putChild (newNode h r c) s c (length (structs h)))"
  by (rule storeOk_putChild[OF storeOk_newNode]) (use assms in \<open>simp_all add: newNode_def\<close>)

lemma addChild_grows:
  assumes "storeOk h" "s < length (structs h)"
  shows "grows h (putChild (newNode h r c) s c k)"
  unfolding grows_def
  using addChild_old(1)[OF assms] addChild_new(4,5)[OF assms]
  by simp

lemma walk_snoc:
  "walk h a (cs @ [c]) = (case walk h a cs of None \<Rightarrow> None | Some b \<Rightarrow> map_of (childrenOf h b) c)"
  by (induction cs arbitrary: a) (simp_all split: option.splits)

lemma trie_addChild:
  fixes c
  assumes t: "trie h p T d" and ok: "storeOk h" and s: "s \<in> T"
    and none: "map_of (childrenOf h s) c = None"
  defines "k \<equiv> length (structs h)"
  defines "h1 \<equiv> putChild (newNode h p c) s c k"
  shows "trie h1 p (insert k T) (d(k := Suc (d s)))"
proof -
  note sv = trieD(3)[OF t s]
  have kT: "k \<notin> T" using trieD(3)[OF t, of k] by (auto simp: k_def)
  have old: "structs h1 ! a = structs h ! a"
      "childrenOf h1 a = (if a = s then AList.update c k (childrenOf h s) else childrenOf h a)"
      "ilpsOf h1 a = ilpsOf h a" if "a \<in> T" for a
    using addChild_old[OF ok sv trieD(3)[OF t that], of p c k] trieD(5)[OF t that s]
    by (auto simp: h1_def)
  note new = addChild_new[OF ok sv, of p c k, folded h1_def k_def]
  have dk: "(d(k := Suc (d s))) a = d a" if "a \<in> T" for a
    using that kT by auto
  have upd: "e \<in> set (AList.update c k (childrenOf h s)) \<Longrightarrow>
             e = (c, k) \<or> e \<in> set (childrenOf h s)" for e
    using set_update_int[of c k "childrenOf h s"] by blast
  have step: "map_of (childrenOf h1 a) c' = Some b"
    if "a \<in> T" "map_of (childrenOf h a) c' = Some b" for a c' b
    using that none by (auto simp: old(2) update_conv')
  have walk1: "a \<in> T \<Longrightarrow> walk h a cs = Some b \<Longrightarrow> walk h1 a cs = Some b" for a cs b
  proof (induction cs arbitrary: a)
    case Nil
    then show ?case by simp
  next
    case (Cons c' cs)
    from Cons.prems(2) obtain a2 where
      a2: "map_of (childrenOf h a) c' = Some a2" and w: "walk h a2 cs = Some b"
      by (auto split: option.splits)
    from Cons.IH[OF trie_child(1)[OF t Cons.prems(1) a2] w] step[OF Cons.prems(1) a2]
    show ?case by simp
  qed
  show ?thesis
    unfolding trie_def
  proof (intro conjI ballI)
    show "p \<in> insert k T" using trieD(1)[OF t] by simp
    show "(d(k := Suc (d s))) p = 0" using dk[OF trieD(1)[OF t]] trieD(2)[OF t] by simp
  next
    fix a assume a: "a \<in> insert k T"
    show "a < length (structs h1)"
      using a trieD(3)[OF t, of a] new(4) by (auto simp: k_def)
    show "root (structs h1 ! a) = p"
      using a old(1)[of a] trieD(4)[OF t, of a] new(1) by auto
    show "\<forall>m. lps (structs h1 ! a) = Some m \<longrightarrow>
            m \<in> insert k T \<and> (d(k := Suc (d s))) m < (d(k := Suc (d s))) a"
    proof (cases "a = k")
      case True
      with new(1) show ?thesis by simp
    next
      case False
      with a have aT: "a \<in> T" by simp
      with trieD(8)[OF t aT] old(1)[OF aT] dk show ?thesis by auto
    qed
    show "\<exists>cs. walk h1 p cs = Some a \<and> length cs = (d(k := Suc (d s))) a"
    proof (cases "a = k")
      case True
      from trieD(10)[OF t s] obtain cs where cs: "walk h p cs = Some s" "length cs = d s"
        by blast
      from walk1[OF trieD(1)[OF t] cs(1)] have "walk h1 p (cs @ [c]) = Some k"
        by (simp add: walk_snoc old(2)[OF s] update_conv')
      with cs(2) True show ?thesis by (intro exI[of _ "cs @ [c]"]) simp
    next
      case False
      with a have aT: "a \<in> T" by simp
      from trieD(10)[OF t aT] obtain cs where "walk h p cs = Some a" "length cs = d a"
        by blast
      with walk1[OF trieD(1)[OF t]] dk[OF aT] show ?thesis by auto
    qed
  next
    fix a b assume a: "a \<in> insert k T" and b: "b \<in> insert k T"
    have fresh: "children (structs h ! x) \<noteq> length (runeMaps h) \<and>
                 ilps (structs h ! x) \<noteq> length (intMaps h)" if "x \<in> T" for x
      using storeOk_valid(2,3)[OF ok trieD(3)[OF t that]] by simp
    show "children (structs h1 ! a) = children (structs h1 ! b) \<or>
          ilps (structs h1 ! a) = ilps (structs h1 ! b) \<longrightarrow> a = b"
    proof (cases "a = k"; cases "b = k")
      assume "a = k" "b = k" then show ?thesis by simp
    next
      assume "a = k" "b \<noteq> k"
      with b have "b \<in> T" by simp
      with fresh[OF this] old(1)[OF this] new(1) \<open>a = k\<close> show ?thesis
        by (auto simp: k_def)
    next
      assume "a \<noteq> k" "b = k"
      with a have "a \<in> T" by simp
      with fresh[OF this] old(1)[OF this] new(1) \<open>b = k\<close> show ?thesis
        by (auto simp: k_def)
    next
      assume "a \<noteq> k" "b \<noteq> k"
      with a b have "a \<in> T" "b \<in> T" by simp_all
      with old(1) trieD(5,6)[OF t this] show ?thesis by auto
    qed
  next
    fix a e assume a: "a \<in> insert k T" and e: "e \<in> set (childrenOf h1 a)"
    show "snd e \<in> insert k T"
    proof (cases "a = k")
      case True
      with e new(2) show ?thesis by simp
    next
      case False
      with a have aT: "a \<in> T" by simp
      show ?thesis
      proof (cases "a = s")
        case True
        with e old(2)[OF aT] upd[of e] trieD(7)[OF t s, of e] show ?thesis by auto
      next
        case False
        with e old(2)[OF aT] trieD(7)[OF t aT, of e] show ?thesis by auto
      qed
    qed
    show "(d(k := Suc (d s))) (snd e) = Suc ((d(k := Suc (d s))) a)"
    proof (cases "a = k")
      case True
      with e new(2) show ?thesis by simp
    next
      case False
      with a have aT: "a \<in> T" by simp
      show ?thesis
      proof (cases "a = s")
        case True
        with e old(2)[OF aT] upd[of e] have "e = (c, k) \<or> e \<in> set (childrenOf h s)" by auto
        then show ?thesis
        proof
          assume "e = (c, k)"
          with True dk[OF s] show ?thesis by simp
        next
          assume "e \<in> set (childrenOf h s)"
          from trieD(7)[OF t s this] dk[of "snd e"] dk[OF s] True show ?thesis by simp
        qed
      next
        case False
        with e old(2)[OF aT] have "e \<in> set (childrenOf h a)" by simp
        from trieD(7)[OF t aT this] dk[of "snd e"] dk[OF aT] show ?thesis by simp
      qed
    qed
  next
    fix a e assume a: "a \<in> insert k T" and e: "e \<in> set (ilpsOf h1 a)"
    have "a \<in> T" using a e new(3) by (cases "a = k") auto
    with e old(3) have "e \<in> set (ilpsOf h a)" by simp
    from trieD(9)[OF t \<open>a \<in> T\<close> this] dk[of "snd e"] dk[OF \<open>a \<in> T\<close>]
    show "snd e \<in> insert k T" "(d(k := Suc (d s))) a < (d(k := Suc (d s))) (snd e)"
      by simp_all
  qed
qed

text \<open>Insertion below a node of the trie.\<close>

lemma enterChild_trie:
  assumes e: "enterChild h s c = Some (h', k)"
    and t: "trie h p T d" and ok: "storeOk h" and s: "s \<in> T"
    and none: "map_of (childrenOf h s) c = None"
  shows "k = length (structs h)"
    and "trie h' p (insert k T) (d(k := Suc (d s))) \<and> storeOk h' \<and> grows h h'"
proof -
  let ?k = "length (structs h)"
  let ?T = "insert ?k T" and ?d = "d(?k := Suc (d s))"
  define h1 where "h1 = putChild (newNode h p c) s c ?k"
  note sv = trieD(3)[OF t s]
  from e trieD(4)[OF t s] obtain h2 where
    cf: "completeFailureFn h1 s c = Some h2"
    and ci: "completeInverseFn (linkInverse h2 ?k) s ?k c = Some h'"
    and k: "k = ?k"
    by (auto simp: enterChild_def Let_def h1_def bind_eq_Some_conv)
  show "k = ?k" by (rule k)
  have t1: "trie h1 p ?T ?d"
    unfolding h1_def by (rule trie_addChild[OF t ok s none])
  have ok1: "storeOk h1"
    unfolding h1_def by (rule addChild_storeOk[OF ok sv trieD(3)[OF t trieD(1)[OF t]]])
  have g1: "grows h h1"
    unfolding h1_def by (rule addChild_grows[OF ok sv])
  have sT: "s \<in> ?T" using s by simp
  have kT: "?k \<in> ?T" by simp
  have sk: "s \<noteq> ?k" using sv by simp
  have ch: "map_of (childrenOf h1 s) c = Some ?k"
    using addChild_old(2)[OF ok sv sv, of p c ?k] by (simp add: h1_def update_conv')
  have t2: "trie h2 p ?T ?d"
    by (rule completeFailureFn_trie[OF cf t1 sT ch])
  from completeFailureFn_store[OF cf ok1 trieD(3)[OF t1 sT]]
  have ok2: "storeOk h2" and s12: "sameRefs h1 h2" by simp_all
  have t3: "trie (linkInverse h2 ?k) p ?T ?d \<and> storeOk (linkInverse h2 ?k)"
  proof (cases "lps (structs h2 ! ?k)")
    case None
    then have "linkInverse h2 ?k = h2" by (simp add: linkInverse_def)
    with t2 ok2 show ?thesis by (simp only: simp_thms)
  next
    case (Some mp)
    from trieD(8)[OF t2 kT Some] have mp: "mp \<in> ?T" "?d mp < ?d ?k" by blast+
    have eq: "linkInverse h2 ?k = putIlps h2 mp (id_st (structs h2 ! ?k)) ?k"
      using Some by (simp add: linkInverse_def)
    show ?thesis
      unfolding eq
      by (intro conjI trie_putIlps[OF t2 ok2 mp(1) kT mp(2)]
          storeOk_putIlps[OF ok2 trieD(3)[OF t2 kT]])
  qed
  have s23: "sameRefs h2 (linkInverse h2 ?k)"
    by (simp add: linkInverse_def sameRefs_refl sameRefs_putIlps split: option.splits)
  have dk: "?d ?k \<le> Suc (?d s)" using sk by simp
  from completeInverseLoop_trie[OF ci[unfolded completeInverseFn_def]
      conjunct1[OF t3] conjunct2[OF t3] kT sT refl dk]
  have t4: "trie h' p ?T ?d" and ok4: "storeOk h'" and s34: "sameRefs (linkInverse h2 ?k) h'"
    by blast+
  from s12 s23 s34 have "sameRefs h1 h'" by (blast intro: sameRefs_trans)
  with g1 have "grows h h'" by (blast intro: grows_trans sameRefs_grows)
  with t4 ok4 show "trie h' p (insert k T) (d(k := Suc (d s))) \<and> storeOk h' \<and> grows h h'"
    unfolding k by blast
qed

lemma enterPath_trie:
  "enterPath h cur cs = Some (h', cur') \<Longrightarrow> trie h p T d \<Longrightarrow> storeOk h \<Longrightarrow> cur \<in> T \<Longrightarrow>
   \<exists>T' d'. trie h' p T' d' \<and> storeOk h' \<and> cur' \<in> T' \<and> grows h h'"
proof (induction cs arbitrary: h cur T d)
  case Nil
  then show ?case by (auto intro: grows_refl)
next
  case (Cons c cs)
  note t = Cons.prems(2) and ok = Cons.prems(3) and cur = Cons.prems(4)
  show ?case
  proof (cases "isRoot h (getChild h cur c)")
    case True
    with trie_isRoot[OF t trie_getChild(1)[OF t cur]] have g: "getChild h cur c = p" by simp
    have none: "map_of (childrenOf h cur) c = None"
    proof (cases "map_of (childrenOf h cur) c")
      case None
      then show ?thesis .
    next
      case (Some b)
      with g have "b = p" by (simp add: getChild_def)
      with trie_child(2)[OF t cur Some] trieD(2)[OF t] show ?thesis by simp
    qed
    from True Cons.prems(1) obtain h1 k where
      e: "enterChild h cur c = Some (h1, k)" and r: "enterPath h1 k cs = Some (h', cur')"
      by (auto simp: bind_eq_Some_conv)
    from enterChild_trie(2)[OF e t ok cur none]
    have 1: "trie h1 p (insert k T) (d(k := Suc (d cur)))" "storeOk h1" "grows h h1"
      by blast+
    from Cons.IH[OF r 1(1,2)] 1(3) show ?thesis
      by (blast intro: grows_trans)
  next
    case False
    with Cons.prems(1) have "enterPath h (getChild h cur c) cs = Some (h', cur')" by simp
    from Cons.IH[OF this t ok trie_getChild(1)[OF t cur]] show ?thesis .
  qed
qed

lemma enterInTrie_trie:
  assumes "enterInTrie h s str = Some h'" "trie h p T d" "storeOk h" "s \<in> T"
  shows "\<exists>T' d'. trie h' p T' d' \<and> storeOk h' \<and> grows h h'"
proof -
  from assms(1) obtain h1 cur where
    e: "enterPath h s (runes str) = Some (h1, cur)"
    and o: "enterOutput (setIsWord h1 cur True) cur str = Some h'"
    by (auto simp: enterInTrie_def bind_eq_Some_conv)
  from enterPath_trie[OF e assms(2,3,4)] obtain T' d' where
    1: "trie h1 p T' d'" "storeOk h1" "grows h h1" by blast
  from o have oo: "onlyOt (setIsWord h1 cur True) h'"
    unfolding enterOutput_def by (rule enterOutputs_onlyOt)
  from trie_onlyOt[OF trie_setIsWord[OF 1(1)] oo]
  have "trie h' p T' d'" .
  moreover from onlyOt_storeOk[OF oo storeOk_setIsWord[OF 1(2)]] have "storeOk h'" .
  moreover from sameRefs_setIsWord onlyOt_sameRefs[OF oo] 1(3) have "grows h h'"
    by (blast intro: grows_trans sameRefs_grows)
  ultimately show ?thesis by blast
qed

lemma buildTrie_trie:
  "buildTrie h p strs = Some h' \<Longrightarrow> trie h p T d \<Longrightarrow> storeOk h \<Longrightarrow>
   \<exists>T' d'. trie h' p T' d' \<and> storeOk h' \<and> grows h h'"
proof (induction strs arbitrary: h T d)
  case Nil
  then show ?case by (auto intro: grows_refl)
next
  case (Cons str strs)
  from Cons.prems(1) obtain h1 where
    e: "enterInTrie h p str = Some h1" and r: "buildTrie h1 p strs = Some h'"
    by (auto simp: bind_eq_Some_conv)
  from enterInTrie_trie[OF e Cons.prems(2,3) trieD(1)[OF Cons.prems(2)]] obtain T' d' where
    1: "trie h1 p T' d'" "storeOk h1" "grows h h1" by blast
  from Cons.IH[OF r 1(1,2)] 1(3) show ?case
    by (blast intro: grows_trans)
qed

text \<open>\<open>buildFailureFn\<close>: every node of the list is a node of the trie.\<close>

lemma completeChildren_trie:
  "completeChildren h node cs = Some h' \<Longrightarrow> trie h p T d \<Longrightarrow> storeOk h \<Longrightarrow> node \<in> T \<Longrightarrow>
   set cs \<subseteq> fst ` set (childrenOf h node) \<Longrightarrow>
   trie h' p T d \<and> storeOk h' \<and> sameRefs h h'"
proof (induction cs arbitrary: h)
  case Nil
  then show ?case by (simp add: sameRefs_refl)
next
  case (Cons c cs)
  from Cons.prems(1) obtain h1 where
    cf: "completeFailureFn h node c = Some h1" and r: "completeChildren h1 node cs = Some h'"
    by (auto simp: bind_eq_Some_conv)
  from Cons.prems(5) have "c \<in> fst ` set (childrenOf h node)" by simp
  then obtain np where np: "map_of (childrenOf h node) c = Some np"
    by (metis map_of_eq_None_iff not_Some_eq)
  from completeFailureFn_trie[OF cf Cons.prems(2,4) np] have t1: "trie h1 p T d" .
  from completeFailureFn_store[OF cf Cons.prems(3) trieD(3)[OF Cons.prems(2,4)]]
  have 1: "storeOk h1" "sameRefs h h1" by simp_all
  from Cons.prems(5) sameRefs_childrenOf[OF 1(2)]
  have "set cs \<subseteq> fst ` set (childrenOf h1 node)" by simp
  from Cons.IH[OF r t1 1(1) Cons.prems(4) this] 1(2) show ?case
    by (blast intro: sameRefs_trans)
qed

lemma buildFailureLoop_trie:
  "buildFailureLoop h nodes = Some h' \<Longrightarrow> trie h p T d \<Longrightarrow> storeOk h \<Longrightarrow> set nodes \<subseteq> T \<Longrightarrow>
   trie h' p T d \<and> storeOk h' \<and> sameRefs h h'"
proof (induction rule: buildFailureLoop_induct)
  case (step f h nodes h')
  show ?case
  proof (cases nodes)
    case Nil
    with step(2) step.prems show ?thesis by (simp add: sameRefs_refl)
  next
    case (Cons node rest)
    with step(2) obtain h1 where
      cc: "completeChildren h node (map fst (childrenOf h node)) = Some h1"
      and r: "f h1 (rest @ map snd (childrenOf h node)) = Some h'"
      by (auto simp: bind_eq_Some_conv)
    from Cons step.prems(3) have node: "node \<in> T" and rest: "set rest \<subseteq> T" by simp_all
    from completeChildren_trie[OF cc step.prems(1,2) node]
    have 1: "trie h1 p T d" "storeOk h1" "sameRefs h h1" by simp_all
    from trieD(7)[OF step.prems(1) node] rest
    have "set (rest @ map snd (childrenOf h node)) \<subseteq> T" by auto
    from step(1)[OF r 1(1,2) this] 1(3) show ?thesis
      by (blast intro: sameRefs_trans)
  qed
qed

text \<open>\<open>New\<close>, in any allocated store.\<close>

lemma trie_root:
  assumes "storeOk h"
  shows "trie (newNode h (length (structs h)) c) (length (structs h)) {length (structs h)} (\<lambda>a. 0)"
  unfolding trie_def
  by (simp add: newNode_def childrenOf_def ilpsOf_def exI[of _ "[]"])

lemma New_trie:
  assumes "New h0 strs = Some (h, p)" "storeOk h0"
  shows "\<exists>T d. trie h p T d \<and> storeOk h \<and> grows h0 h"
proof -
  let ?h1 = "newNode h0 (length (structs h0)) 0"
  from assms(1) obtain h2 where
    p: "p = length (structs h0)"
    and bt: "buildTrie ?h1 p strs = Some h2"
    and bf: "buildFailureFn h2 p = Some h"
    by (auto simp: New_def Let_def bind_eq_Some_conv)
  have t1: "trie ?h1 p {p} (\<lambda>a. 0)" unfolding p by (rule trie_root[OF assms(2)])
  have ok1: "storeOk ?h1" by (rule storeOk_newNode[OF assms(2)]) simp
  have g1: "grows h0 ?h1" by (simp add: grows_def newNode_def nth_append)
  from buildTrie_trie[OF bt t1 ok1] obtain T d where
    2: "trie h2 p T d" "storeOk h2" "grows ?h1 h2" by blast
  from trieD(7)[OF 2(1) trieD(1)[OF 2(1)]] have "set (map snd (childrenOf h2 p)) \<subseteq> T"
    by auto
  from buildFailureLoop_trie[OF bf[unfolded buildFailureFn_def] 2(1,2) this]
  have 3: "trie h p T d" "storeOk h" "sameRefs h2 h" by simp_all
  from g1 2(3) 3(3) have "grows h0 h" by (blast intro: grows_trans sameRefs_grows)
  with 3 show ?thesis by blast
qed

section \<open>Insertion through a value receiver\<close>

text \<open>
  Re-pointing a node \<open>xp\<close> to \<open>np\<close>, as the loop of \<open>completeInverseFn\<close> does, leaves a
  self-linked \<open>np\<close> self-linked.
\<close>

lemma selfLinked_redirect:
  assumes ok: "storeOk h" and sl: "selfLinked h np" and xp: "xp < length (structs h)"
    and y: "y < length (structs h)"
  shows "selfLinked
           (putIlps (setLps (deleteIlps h y (id_st (structs h ! xp))) xp (Some np))
              np (id_st (structs h ! xp)) xp) np"
proof -
  let ?i = "id_st (structs h ! xp)"
  let ?h1 = "deleteIlps h y ?i"
  let ?h2 = "setLps ?h1 xp (Some np)"
  let ?h3 = "putIlps ?h2 np ?i xp"
  from sl have np: "np < length (structs h)" and lp: "lps (structs h ! np) = Some np"
    and own: "map_of (ilpsOf h np) (id_st (structs h ! np)) = Some np"
    and uniq: "\<And>a. a < length (structs h) \<Longrightarrow>
        id_st (structs h ! a) = id_st (structs h ! np) \<Longrightarrow> a = np"
    by (simp_all add: selfLinked_def)
  have s: "sameRefs h ?h3"
    using sameRefs_deleteIlps sameRefs_setLps sameRefs_putIlps
    by (blast intro: sameRefs_trans)
  then have ids: "id_st (structs ?h3 ! a) = id_st (structs h ! a)" for a
    by (simp add: sameRefs_def)
  from s have len: "length (structs ?h3) = length (structs h)"
    by (simp add: sameRefs_def)
  have st3: "structs ?h3 = structs ?h2" by (simp add: putIlps_def)
  have st1: "structs ?h1 = structs h" by (simp add: deleteIlps_def)
  have "lps (structs ?h2 ! np) = (if np = xp then Some np else lps (structs ?h1 ! np))"
    using xp by (simp add: lps_setLps st1)
  with lp have lp3: "lps (structs ?h3 ! np) = Some np"
    unfolding st3 st1 by simp
  have v2: "ilps (structs ?h2 ! np) < length (intMaps ?h2)"
    using storeOk_valid(3)[OF ok np]
    by (simp add: setLps_def deleteIlps_def upd_lps_fields)
  have i3: "ilpsOf ?h3 np = AList.update ?i xp (ilpsOf ?h2 np)"
    using ilpsOf_putIlps[OF v2, of ?i xp np] by simp
  have i2: "ilpsOf ?h2 np = ilpsOf ?h1 np" by (rule ilpsOf_setLps)
  have i1: "ilpsOf ?h1 np =
      (if ilps (structs h ! np) = ilps (structs h ! y)
       then AList.delete ?i (ilpsOf h y) else ilpsOf h np)"
    by (rule ilpsOf_deleteIlps[OF storeOk_valid(3)[OF ok y]])
  have own3: "map_of (ilpsOf ?h3 np) (id_st (structs h ! np)) = Some np"
  proof (cases "?i = id_st (structs h ! np)")
    case True
    from uniq[OF xp True] have "xp = np" .
    with True show ?thesis unfolding i3 by (simp add: update_conv')
  next
    case False
    have "ilps (structs h ! np) = ilps (structs h ! y) \<Longrightarrow> ilpsOf h y = ilpsOf h np"
      by (simp add: ilpsOf_def)
    with False own have "map_of (ilpsOf ?h1 np) (id_st (structs h ! np)) = Some np"
      by (auto simp: i1)
    with False show ?thesis unfolding i3 i2 by (simp add: update_conv')
  qed
  show ?thesis
    unfolding selfLinked_def ids len
    using np lp3 own3 uniq by blast
qed

lemma completeInverseLoop_selfLinked:
  "completeInverseLoop h m ks np c = Some h' \<Longrightarrow> storeOk h \<Longrightarrow> selfLinked h np \<Longrightarrow>
   m < length (intMaps h) \<Longrightarrow> storeOk h' \<and> sameRefs h h' \<and> selfLinked h' np"
proof (induction rule: completeInverseLoop_induct)
  case (step f h m ks np c h')
  note ok = step.prems(1) and sl = step.prems(2)
  from sl have npv: "np < length (structs h)" by (simp add: selfLinked_def)
  show ?case
  proof (cases ks)
    case Nil
    with step(2) step.prems show ?thesis by (simp add: sameRefs_refl)
  next
    case (Cons k rest)
    show ?thesis
    proof (cases "map_of (intMaps h ! m) k")
      case None
      with Cons step(2) have "f h m rest np c = Some h'" by simp
      from step(1)[OF this step.prems] show ?thesis .
    next
      case (Some x)
      from Some have "(k, x) \<in> set (intMaps h ! m)" by (rule map_of_SomeD)
      moreover from step.prems(3) have "intMaps h ! m \<in> set (intMaps h)" by simp
      ultimately have x: "x < length (structs h)"
        using ok unfolding storeOk_def by fastforce
      show ?thesis
      proof (cases "map_of (childrenOf h x) c")
        case None
        with Cons Some step(2) obtain h1 where
          a: "f h (ilps (structs h ! x)) (map fst (ilpsOf h x)) np c = Some h1"
          and b: "f h1 m rest np c = Some h'"
          by (auto simp: bind_eq_Some_conv)
        from step(1)[OF a ok sl storeOk_valid(3)[OF ok x]]
        have 1: "storeOk h1" "sameRefs h h1" "selfLinked h1 np" by simp_all
        from 1(2) step.prems(3) have "m < length (intMaps h1)"
          by (simp add: sameRefs_def)
        from step(1)[OF b 1(1,3) this] 1(2) show ?thesis
          by (blast intro: sameRefs_trans)
      next
        case (Some xp)
        let ?h1 = "deleteIlps h (failureFn h xp) (id_st (structs h ! xp))"
        let ?h2 = "setLps ?h1 xp (Some np)"
        let ?h3 = "putIlps ?h2 np (id_st (structs h ! xp)) xp"
        from Some have "(c, xp) \<in> set (childrenOf h x)" by (rule map_of_SomeD)
        from storeOk_valid(7)[OF ok x this]
        have xp: "xp < length (structs h)" by simp
        from Cons \<open>map_of (intMaps h ! m) k = Some x\<close> Some step(2)
        have r: "f ?h3 m rest np c = Some h'" by simp
        have s: "sameRefs h ?h3"
          using sameRefs_deleteIlps sameRefs_setLps sameRefs_putIlps
          by (blast intro: sameRefs_trans)
        have o2: "storeOk ?h2"
          using storeOk_deleteIlps[OF ok] npv
          by (intro storeOk_setLps) (simp_all add: deleteIlps_def)
        have o3: "storeOk ?h3"
          using o2 xp
          by (intro storeOk_putIlps) (simp_all add: setLps_def deleteIlps_def)
        have sl3: "selfLinked ?h3 np"
          by (rule selfLinked_redirect[OF ok sl xp storeOk_valid(9)[OF ok xp]])
        from s step.prems(3) have "m < length (intMaps ?h3)"
          by (simp add: sameRefs_def)
        from step(1)[OF r o3 sl3 this] s show ?thesis
          by (blast intro: sameRefs_trans)
      qed
    qed
  qed
qed

text \<open>
  \<open>enterChild\<close> on such a struct: \<open>completeFailureFn\<close> does not return at \<open>isRoot\<close>, its
  loop ends at the child just entered, and the child becomes its own failure link.
\<close>

lemma enterChild_offRoot:
  assumes e: "enterChild h s c = Some (h', k)" and ok: "storeOk h" and off: "offRoot h s"
  shows "storeOk h' \<and> selfLinked h' k \<and> childrenOf h' k = [] \<and> offRoot h' k"
proof -
  let ?k = "length (structs h)"
  let ?r = "root (structs h ! s)"
  define h1 where "h1 = putChild (newNode h ?r c) s c ?k"
  from off have sv: "s < length (structs h)" and rv: "?r < length (structs h)"
    and rs: "?r \<noteq> s" and rr: "root (structs h ! ?r) = ?r"
    and kind: "lps (structs h ! s) = None \<and> children (structs h ! s) = children (structs h ! ?r)
               \<or> lps (structs h ! s) = Some s"
    by (simp_all add: offRoot_def isRoot_def)
  from e obtain h2 where
    cf: "completeFailureFn h1 s c = Some h2"
    and ci: "completeInverseFn (linkInverse h2 ?k) s ?k c = Some h'"
    and k: "k = ?k"
    by (auto simp: enterChild_def Let_def h1_def bind_eq_Some_conv)
  have ok1: "storeOk h1"
    unfolding h1_def by (rule addChild_storeOk[OF ok sv rv])
  note old_s = addChild_old[OF ok sv sv, of ?r c ?k, folded h1_def]
  note old_r = addChild_old[OF ok sv rv, of ?r c ?k, folded h1_def]
  note new = addChild_new[OF ok sv, of ?r c ?k, folded h1_def]
  have root1: "\<not> isRoot h1 s" "isRoot h1 ?r" "\<not> isRoot h1 ?k"
    using rs rr rv by (simp_all add: isRoot_def old_s(1) old_r(1) new(1))
  have get_s: "getChild h1 s c = ?k"
    by (simp add: getChild_def old_s(2) update_conv')
  have ft: "failureTarget h1 s c = Some ?k"
  proof (cases "lps (structs h ! s)")
    case None
    with kind have ch: "children (structs h ! ?r) = children (structs h ! s)" by simp
    from None have f: "failureFn h1 s = ?r" by (simp add: failureFn_def old_s(1))
    have "getChild h1 ?r c = ?k"
      by (simp add: getChild_def old_r(2) ch update_conv')
    with f root1(2) show ?thesis by (subst failureTarget.simps) simp
  next
    case (Some q)
    with kind have f: "failureFn h1 s = s" by (simp add: failureFn_def old_s(1))
    with get_s root1(3) show ?thesis by (subst failureTarget.simps) simp
  qed
  let ?h1' = "setLps h1 ?k (Some ?k)"
  from cf root1(1) ft get_s
  have h2: "h2 = fold (\<lambda>x h'. putOt h' ?k x) (otOf h1 ?k) ?h1'"
    by (simp add: completeFailureFn_def)
  have o12: "onlyOt ?h1' h2" unfolding h2 by (rule onlyOt_fold_putOt)
  have st2: "structs h2 = structs ?h1'" using o12 by (simp add: onlyOt_def)
  have ok2: "storeOk h2"
    using completeFailureFn_store[OF cf ok1] sv new(4) by simp
  have s12: "sameRefs h1 h2"
    using sameRefs_setLps onlyOt_sameRefs[OF o12] by (rule sameRefs_trans)
  have kv2: "?k < length (structs h2)"
    using s12 new(4) by (simp add: sameRefs_def)
  have lps2: "lps (structs h2 ! ?k) = Some ?k"
    unfolding st2 using new(4) by (simp add: lps_setLps)
  have id2: "id_st (structs h2 ! a) = id_st (structs h1 ! a)" for a
    using s12 by (simp add: sameRefs_def)
  have il2: "ilpsOf h2 ?k = []"
    using onlyOt_ilpsOf[OF o12, of ?k] new(3) by (simp add: ilpsOf_setLps)
  let ?h3 = "putIlps h2 ?k (id_st (structs h2 ! ?k)) ?k"
  have li: "linkInverse h2 ?k = ?h3" using lps2 by (simp add: linkInverse_def)
  have ok3: "storeOk ?h3" by (rule storeOk_putIlps[OF ok2 kv2])
  have s23: "sameRefs h2 ?h3" by (rule sameRefs_putIlps)
  have il3: "ilpsOf ?h3 ?k = [(id_st (structs h2 ! ?k), ?k)]"
    using ilpsOf_putIlps[OF storeOk_valid(3)[OF ok2 kv2], of "id_st (structs h2 ! ?k)" ?k ?k] il2
    by simp
  have uniq: "a = ?k" if "a < length (structs ?h3)"
      "id_st (structs ?h3 ! a) = id_st (structs ?h3 ! ?k)" for a
  proof (rule ccontr)
    assume "a \<noteq> ?k"
    with that(1) s23 s12 new(4) have a: "a < length (structs h)"
      by (simp add: sameRefs_def)
    have "id_st (structs ?h3 ! a) = id_st (structs h ! a)"
      using addChild_old(1)[OF ok sv a, of ?r c ?k, folded h1_def]
      by (simp add: putIlps_def id2)
    moreover have "id_st (structs ?h3 ! ?k) = id_var h + 1"
      by (simp add: putIlps_def id2 new(1))
    ultimately show False using that(2) storeOk_valid(6)[OF ok a] by simp
  qed
  have sl3: "selfLinked ?h3 ?k"
    unfolding selfLinked_def
    using kv2 lps2 il3 uniq by (simp add: putIlps_def)
  have mv: "ilps (structs ?h3 ! s) < length (intMaps ?h3)"
    using storeOk_valid(3)[OF ok3, of s] sv s23 s12 new(4) by (simp add: sameRefs_def)
  from completeInverseLoop_selfLinked[OF ci[unfolded completeInverseFn_def li] ok3 sl3 mv]
  have 4: "storeOk h'" "sameRefs ?h3 h'" "selfLinked h' ?k" by simp_all
  from s12 s23 4(2) have s14: "sameRefs h1 h'" by (blast intro: sameRefs_trans)
  have ch4: "childrenOf h' ?k = []"
    using sameRefs_childrenOf[OF s14, of ?k] new(2) by simp
  have "offRoot h' ?k"
  proof -
    from s14 have "length (structs h') = length (structs h1)"
      "root (structs h' ! a) = root (structs h1 ! a)" for a
      by (simp_all add: sameRefs_def)
    moreover from 4(3) have "lps (structs h' ! ?k) = Some ?k" by (simp add: selfLinked_def)
    ultimately show ?thesis
      using rv rr new(1,4) old_r(1) by (simp add: offRoot_def isRoot_def)
  qed
  with 4 ch4 show ?thesis unfolding k by blast
qed

lemma enterPath_selfLinked:
  "enterPath h cur cs = Some (h', cur') \<Longrightarrow> storeOk h \<Longrightarrow> selfLinked h cur \<Longrightarrow>
   childrenOf h cur = [] \<Longrightarrow> offRoot h cur \<Longrightarrow> selfLinked h' cur'"
proof (induction cs arbitrary: h cur)
  case Nil
  then show ?case by simp
next
  case (Cons c cs)
  from Cons.prems(4,5) have "isRoot h (getChild h cur c)"
    by (simp add: getChild_def offRoot_def)
  with Cons.prems(1) obtain h1 k where
    e: "enterChild h cur c = Some (h1, k)" and r: "enterPath h1 k cs = Some (h', cur')"
    by (auto simp: bind_eq_Some_conv)
  from enterChild_offRoot[OF e Cons.prems(2,5)]
  have 1: "storeOk h1" "selfLinked h1 k" "childrenOf h1 k = []" "offRoot h1 k" by simp_all
  from Cons.IH[OF r 1] show ?case .
qed

text \<open>
  So \<open>enterInTrie\<close> on a receiver's copy does not return when the first rune of the
  term is no child of the root yet.
\<close>

lemma enterInTrie_offRoot:
  assumes ok: "storeOk h" and off: "offRoot h s" and rs: "runes str = c # cs"
    and g: "isRoot h (getChild h s c)"
  shows "enterInTrie h s str = None"
proof (cases "enterPath h s (runes str)")
  case None
  then show ?thesis by (simp add: enterInTrie_def)
next
  case (Some res)
  obtain h2 cur where res: "res = (h2, cur)" by (cases res)
  from Some rs g res obtain h1 k where
    e: "enterChild h s c = Some (h1, k)" and r: "enterPath h1 k cs = Some (h2, cur)"
    by (auto simp: bind_eq_Some_conv)
  from enterChild_offRoot[OF e ok off]
  have 1: "storeOk h1" "selfLinked h1 k" "childrenOf h1 k = []" "offRoot h1 k" by simp_all
  from enterPath_selfLinked[OF r 1] have "selfLinked h2 cur" .
  then have "map_of (ilpsOf h2 cur) (id_st (structs h2 ! cur)) = Some cur"
    by (simp add: selfLinked_def)
  then have "(id_st (structs h2 ! cur), cur) \<in> set (ilpsOf h2 cur)" by (rule map_of_SomeD)
  then have "cur \<in> snd ` set (ilpsOf (setIsWord h2 cur True) cur)"
    by (force simp: ilpsOf_setIsWord)
  then have "enterOutput (setIsWord h2 cur True) cur str = None"
    by (rule enterOutput_self_diverges)
  with Some res show ?thesis by (simp add: enterInTrie_def)
qed

section \<open>The trie after \<open>New\<close> and any row of \<open>AddSearchTerm\<close> calls\<close>

lemma rootCopy_grows:
  "rootCopy h p v \<Longrightarrow> grows h h' \<Longrightarrow> p < length (structs h) \<Longrightarrow> rootCopy h' p v"
  by (simp add: rootCopy_def grows_def)

lemma AddSearchTerm_trie:
  assumes a: "AddSearchTerm h v t = Some h'"
    and t: "trie h p T d" and ok: "storeOk h" and v: "rootCopy h p v"
  shows "\<exists>T' d'. trie h' p T' d' \<and> storeOk h' \<and> grows h h'"
proof -
  let ?a = "length (structs h)"
  define hc where "hc = h\<lparr>structs := structs h @ [v]\<rparr>"
  note pT = trieD(1)[OF t]
  note pv = trieD(3)[OF t pT]
  from v have vr: "root v = p" and vl: "lps v = None"
    and vc: "children v = children (structs h ! p)"
    and vi: "ilps v = ilps (structs h ! p)" and vo: "ot v = ot (structs h ! p)"
    and vid: "id_st v = id_st (structs h ! p)"
    by (simp_all add: rootCopy_def)
  have old: "structs hc ! b = structs h ! b" if "b < length (structs h)" for b
    using that by (simp add: hc_def nth_append)
  have new: "structs hc ! ?a = v" by (simp add: hc_def)
  have maps: "runeMaps hc = runeMaps h" "intMaps hc = intMaps h" "strSets hc = strSets h"
    "id_var hc = id_var h" "length (structs hc) = Suc (length (structs h))"
    by (simp_all add: hc_def)
  have okc: "storeOk hc"
  proof -
    have "root s < Suc (length (structs h)) \<and> children s < length (runeMaps h) \<and>
        ilps s < length (intMaps h) \<and> ot s < length (strSets h) \<and>
        (\<forall>m. lps s = Some m \<longrightarrow> m < Suc (length (structs h))) \<and> id_st s \<le> id_var h"
      if "s \<in> set (structs h)" for s
      using ok that unfolding storeOk_def by fastforce
    moreover have "root v < Suc (length (structs h)) \<and> children v < length (runeMaps h) \<and>
        ilps v < length (intMaps h) \<and> ot v < length (strSets h) \<and>
        (\<forall>m. lps v = Some m \<longrightarrow> m < Suc (length (structs h))) \<and> id_st v \<le> id_var h"
      using storeOk_struct[OF ok pv] pv vr vl vc vi vo vid by simp
    moreover have "\<forall>e\<in>set al. snd e < Suc (length (structs h))"
      if "al \<in> set (runeMaps h)" for al
      using ok that unfolding storeOk_def by fastforce
    moreover have "\<forall>e\<in>set al. snd e < Suc (length (structs h))"
      if "al \<in> set (intMaps h)" for al
      using ok that unfolding storeOk_def by fastforce
    ultimately show ?thesis
      unfolding storeOk_def hc_def by auto
  qed
  have tc: "trie hc p T d"
  proof (rule trie_frame[OF t])
    show "length (structs h) \<le> length (structs hc)" by (simp add: maps)
    show "\<forall>a\<in>T. root (structs hc ! a) = root (structs h ! a) \<and>
        children (structs hc ! a) = children (structs h ! a) \<and>
        ilps (structs hc ! a) = ilps (structs h ! a)"
      using old trieD(3)[OF t] by simp
    show "\<forall>a\<in>T. childrenOf hc a = childrenOf h a"
      using old trieD(3)[OF t] by (simp add: childrenOf_def maps)
    show "\<forall>a\<in>T. \<forall>m. lps (structs hc ! a) = Some m \<longrightarrow> m \<in> T \<and> d m < d a"
      using old trieD(3)[OF t] trieD(8)[OF t] by simp
    show "\<forall>a\<in>T. \<forall>e\<in>set (ilpsOf hc a). snd e \<in> T \<and> d a < d (snd e)"
      using old trieD(3)[OF t] trieD(9)[OF t] by (simp add: ilpsOf_def maps)
  qed
  have gc: "grows h hc" using old by (simp add: grows_def maps)
  have offc: "offRoot hc ?a"
    using pv vr vl vc trieD(4)[OF t pT]
    by (simp add: offRoot_def isRoot_def new old maps)
  have chc: "childrenOf hc ?a = childrenOf hc p"
    using pv vc by (simp add: childrenOf_def new old)
  from a have e: "enterInTrie hc ?a t = Some h'"
    by (simp add: AddSearchTerm_def hc_def)
  then obtain h1 cur where
    ep: "enterPath hc ?a (runes t) = Some (h1, cur)"
    and o: "enterOutput (setIsWord h1 cur True) cur t = Some h'"
    by (auto simp: enterInTrie_def bind_eq_Some_conv)
  have "\<exists>T' d'. trie h1 p T' d' \<and> storeOk h1 \<and> grows hc h1"
  proof (cases "runes t")
    case Nil
    with ep tc okc show ?thesis by (auto intro: grows_refl)
  next
    case (Cons c cs)
    show ?thesis
    proof (cases "isRoot hc (getChild hc ?a c)")
      case True
      from enterInTrie_offRoot[OF okc offc Cons True] e show ?thesis by simp
    next
      case False
      with ep Cons have r: "enterPath hc (getChild hc ?a c) cs = Some (h1, cur)" by simp
      have "getChild hc ?a c \<in> T"
      proof (cases "map_of (childrenOf hc p) c")
        case None
        with chc vr have "getChild hc ?a c = p" by (simp add: getChild_def new)
        with False trie_isRoot[OF tc pT] show ?thesis by simp
      next
        case (Some b)
        with chc have "getChild hc ?a c = b" by (simp add: getChild_def)
        with trie_child(1)[OF tc pT Some] show ?thesis by simp
      qed
      from enterPath_trie[OF r tc okc this] show ?thesis by blast
    qed
  qed
  then obtain T' d' where 1: "trie h1 p T' d'" "storeOk h1" "grows hc h1" by blast
  from o have oo: "onlyOt (setIsWord h1 cur True) h'"
    unfolding enterOutput_def by (rule enterOutputs_onlyOt)
  from trie_onlyOt[OF trie_setIsWord[OF 1(1)] oo] have "trie h' p T' d'" .
  moreover from onlyOt_storeOk[OF oo storeOk_setIsWord[OF 1(2)]] have "storeOk h'" .
  moreover from sameRefs_setIsWord onlyOt_sameRefs[OF oo] 1(3) gc have "grows h h'"
    by (blast intro: grows_trans sameRefs_grows)
  ultimately show ?thesis by blast
qed

lemma addSearchTerms_trie:
  "addSearchTerms h v ts = Some h' \<Longrightarrow> trie h p T d \<Longrightarrow> storeOk h \<Longrightarrow> rootCopy h p v \<Longrightarrow>
   \<exists>T' d'. trie h' p T' d' \<and> storeOk h'"
proof (induction ts arbitrary: h T d)
  case Nil
  then show ?case by auto
next
  case (Cons t ts)
  from Cons.prems(1) obtain h1 where
    a: "AddSearchTerm h v t = Some h1" and r: "addSearchTerms h1 v ts = Some h'"
    by (auto simp: bind_eq_Some_conv)
  from AddSearchTerm_trie[OF a Cons.prems(2,3,4)] obtain T' d' where
    1: "trie h1 p T' d'" "storeOk h1" "grows h h1" by blast
  from rootCopy_grows[OF Cons.prems(4) 1(3) trieD(3)[OF Cons.prems(2) trieD(1)[OF Cons.prems(2)]]]
  have "rootCopy h1 p v" .
  from Cons.IH[OF r 1(1,2) this] show ?case .
qed

lemma trie_reaches_root:
  assumes "trie h p T d"
  shows "a \<in> T \<Longrightarrow> \<exists>k. (failureFn h ^^ k) a = p"
proof (induction "d a" arbitrary: a rule: less_induct)
  case less
  show ?case
  proof (cases "a = p")
    case True
    then have "(failureFn h ^^ 0) a = p" by simp
    then show ?thesis by blast
  next
    case False
    from trie_failureFn(1)[OF assms less.prems] trie_failureFn(3)[OF assms less.prems False]
    have "failureFn h a \<in> T" "d (failureFn h a) < d a" by simp_all
    from less.hyps[OF this(2,1)] obtain k where "(failureFn h ^^ k) (failureFn h a) = p"
      by blast
    then have "(failureFn h ^^ Suc k) a = p" by (simp add: funpow_swap1)
    then show ?thesis by blast
  qed
qed

text \<open>
  Every \<open>AddSearchTerm\<close> whose term starts with a rune that is no child of the root yet
  fails to return, whatever the trie.
\<close>

lemma AddSearchTerm_new_first_rune:
  assumes t: "trie h p T d" and ok: "storeOk h" and v: "rootCopy h p v"
    and rs: "runes str = c # cs" and none: "map_of (childrenOf h p) c = None"
  shows "AddSearchTerm h v str = None"
proof -
  let ?a = "length (structs h)"
  let ?hc = "h\<lparr>structs := structs h @ [v]\<rparr>"
  note pT = trieD(1)[OF t]
  note pv = trieD(3)[OF t pT]
  from v have vr: "root v = p" and vl: "lps v = None"
    and vc: "children v = children (structs h ! p)"
    and vi: "ilps v = ilps (structs h ! p)" and vo: "ot v = ot (structs h ! p)"
    and vid: "id_st v = id_st (structs h ! p)"
    by (simp_all add: rootCopy_def)
  have okc: "storeOk ?hc"
  proof -
    have "root s < Suc (length (structs h)) \<and> children s < length (runeMaps h) \<and>
        ilps s < length (intMaps h) \<and> ot s < length (strSets h) \<and>
        (\<forall>m. lps s = Some m \<longrightarrow> m < Suc (length (structs h))) \<and> id_st s \<le> id_var h"
      if "s \<in> set (structs h)" for s
      using ok that unfolding storeOk_def by fastforce
    moreover have "root v < Suc (length (structs h)) \<and> children v < length (runeMaps h) \<and>
        ilps v < length (intMaps h) \<and> ot v < length (strSets h) \<and>
        (\<forall>m. lps v = Some m \<longrightarrow> m < Suc (length (structs h))) \<and> id_st v \<le> id_var h"
      using storeOk_struct[OF ok pv] pv vr vl vc vi vo vid by simp
    moreover have "\<forall>e\<in>set al. snd e < Suc (length (structs h))"
      if "al \<in> set (runeMaps h)" for al
      using ok that unfolding storeOk_def by fastforce
    moreover have "\<forall>e\<in>set al. snd e < Suc (length (structs h))"
      if "al \<in> set (intMaps h)" for al
      using ok that unfolding storeOk_def by fastforce
    ultimately show ?thesis
      unfolding storeOk_def by auto
  qed
  have offc: "offRoot ?hc ?a"
    using pv vr vl vc trieD(4)[OF t pT]
    by (simp add: offRoot_def isRoot_def nth_append)
  have "getChild ?hc ?a c = p"
    using none vc vr by (simp add: getChild_def childrenOf_def)
  then have "isRoot ?hc (getChild ?hc ?a c)"
    using pv trieD(4)[OF t pT] by (simp add: isRoot_def nth_append)
  from enterInTrie_offRoot[OF okc offc rs this] show ?thesis
    by (simp add: AddSearchTerm_def)
qed

text \<open>
  C5. The failure links form a forest. Take any allocated store, a \<open>New\<close> in it that
  returns, and any row of \<open>AddSearchTerm\<close> calls on the value \<open>*New(...)\<close> that all
  return. Then for every node \<open>n\<close> of the trie other than the root, with path \<open>cs\<close>:
  the node \<open>failureFn\<close> gives for \<open>n\<close> (the \<open>lps\<close>, or the root for nil) is a node of the
  trie with a strictly shorter path; it is not \<open>n\<close> itself; and following failure
  links from \<open>n\<close> reaches the root, so that no cycle passes through \<open>n\<close>.
  (An \<open>AddSearchTerm\<close> that does not return leaves no trie to speak of: Go stops the
  program. The proof uses nothing of the order in which a map is walked.)
\<close>

theorem failure_link_forest:
  assumes "storeOk h0" "New h0 strs = Some (h, p)"
    "addSearchTerms h (structs h ! p) ts = Some h'"
    "walk h' p cs = Some n" "n \<noteq> p"
  shows "(\<exists>cs'. walk h' p cs' = Some (failureFn h' n) \<and> length cs' < length cs) \<and>
         failureFn h' n \<noteq> n \<and>
         (\<exists>k. (failureFn h' ^^ k) n = p)"
proof -
  from New_trie[OF assms(2,1)] obtain T d where
    1: "trie h p T d" "storeOk h" by blast
  note pT = trieD(1)[OF 1(1)]
  have "lps (structs h ! p) = None"
  proof (cases "lps (structs h ! p)")
    case None
    then show ?thesis .
  next
    case (Some m)
    from trieD(8)[OF 1(1) pT Some] trieD(2)[OF 1(1)] show ?thesis by simp
  qed
  with trieD(4)[OF 1(1) pT] have "rootCopy h p (structs h ! p)"
    by (simp add: rootCopy_def)
  from addSearchTerms_trie[OF assms(3) 1 this] obtain T' d' where
    t: "trie h' p T' d'" by blast
  from walk_in_trie[OF t trieD(1)[OF t] assms(4)] trieD(2)[OF t]
  have n: "n \<in> T'" "d' n = length cs" by simp_all
  from trie_failureFn(1)[OF t n(1)] trie_failureFn(3)[OF t n(1) assms(5)]
  have f: "failureFn h' n \<in> T'" "d' (failureFn h' n) < d' n" by simp_all
  from trieD(10)[OF t f(1)] f(2) n(2)
  have "\<exists>cs'. walk h' p cs' = Some (failureFn h' n) \<and> length cs' < length cs" by auto
  moreover from f(2) have "failureFn h' n \<noteq> n" by auto
  moreover from trie_reaches_root[OF t n(1)] have "\<exists>k. (failureFn h' ^^ k) n = p" .
  ultimately show ?thesis by blast
qed

theorem failure_link_forest_witness:
  "(\<exists>cs'. walk (fst testTrie) (snd testBuilt) cs' = Some (failureFn (fst testTrie) 4) \<and>
          length cs' < length (runes ''can'')) \<and>
   failureFn (fst testTrie) 4 \<noteq> 4 \<and>
   (\<exists>k. (failureFn (fst testTrie) ^^ k) 4 = snd testBuilt)"
proof -
  have 1: "storeOk initHeap"
    by (simp add: storeOk_def initHeap_def)
  have 2: "New initHeap [''a'', ''can''] = Some (fst testBuilt, snd testBuilt)"
    by code_simp
  have 3: "addSearchTerms (fst testBuilt) (structs (fst testBuilt) ! snd testBuilt) [''an'']
      = Some (fst testTrie)"
    by code_simp
  have 4: "walk (fst testTrie) (snd testBuilt) (runes ''can'') = Some 4"
    by code_simp
  have 5: "(4::nat) \<noteq> snd testBuilt"
    by code_simp
  from failure_link_forest[OF 1 2 3 4 5] show ?thesis .
qed

end
